theory Spec2Isabelle
  imports Main "HOL-Library.Word" "HOL-Library.Monad_Syntax" "HOL-Library.Sublist"
begin

section \<open>Unused store elimination: data model\<close>

text \<open>
  A shallow embedding of \<^verbatim>\<open>libyul/optimiser/UnusedStoreEliminator.cpp\<close>.
  A \<^verbatim>\<open>YulString\<close> is a string, a \<^verbatim>\<open>u256\<close> is a 256-bit word (its
  arithmetic wraps around, as the unchecked boost type does). A failed \<^verbatim>\<open>yulAssert\<close>
  and a \<^verbatim>\<open>std::out_of_range\<close> thrown by \<^verbatim>\<open>at()\<close> abort the pass: every function
  that can abort returns an option, and \<open>None\<close> is the abort.
\<close>

type_synonym YulString = string
type_synonym u256 = "256 word"

datatype Location = Memory | Storage

text \<open>\<^verbatim>\<open>SemanticInformation::Effect\<close> and \<^verbatim>\<open>SideEffects::Effect\<close>: None, Read, Write.\<close>

datatype Effect = EffectNone | Read | Write

text \<open>\<^verbatim>\<open>UnusedStoreEliminator::Operation\<close>; the field \<^verbatim>\<open>length\<close> is \<open>length_op\<close> here.\<close>

record Operation =
  location :: Location
  effect :: Effect
  start :: "YulString option"
  length_op :: "YulString option"

text \<open>
  The interface of \<^verbatim>\<open>KnowledgeBase\<close>, whose implementation is not in the source file:
  the five queries the pass asks, taken as a parameter.
\<close>

record KnowledgeBase =
  valueIfKnownConstant :: "YulString \<Rightarrow> u256 option"
  knownToBeZero :: "YulString \<Rightarrow> bool"
  knownToBeDifferent :: "YulString \<Rightarrow> YulString \<Rightarrow> bool"
  knownToBeDifferentByAtLeast32 :: "YulString \<Rightarrow> YulString \<Rightarrow> bool"
  knownToBeEqual :: "YulString \<Rightarrow> YulString \<Rightarrow> bool"

section \<open>The alias predicates\<close>

text \<open>
  \<^verbatim>\<open>UnusedStoreEliminator::knownUnrelated\<close>. The storage case asserts that both
  lengths are present and known to be the constant 1; the result is \<open>None\<close> when the
  assertion fails.
\<close>

definition knownUnrelated :: "KnowledgeBase \<Rightarrow> Operation \<Rightarrow> Operation \<Rightarrow> bool option" where
  "knownUnrelated knowledge op1 op2 =
    (if location op1 \<noteq> location op2 then Some True
     else if location op1 = Storage then
       (case (start op1, start op2) of
          (Some s1, Some s2) \<Rightarrow>
            (if (case (length_op op1, length_op op2) of
                   (Some l1, Some l2) \<Rightarrow>
                      valueIfKnownConstant knowledge l1 = Some 1 \<and>
                      valueIfKnownConstant knowledge l2 = Some 1
                 | _ \<Rightarrow> False)
             then Some (knownToBeDifferent knowledge s1 s2)
             else None)
        | _ \<Rightarrow> Some False)
     else
       Some (
         if (case length_op op1 of Some l1 \<Rightarrow> knownToBeZero knowledge l1 | None \<Rightarrow> False) \<or>
            (case length_op op2 of Some l2 \<Rightarrow> knownToBeZero knowledge l2 | None \<Rightarrow> False)
         then True
         else if
           (case (start op1, length_op op1, start op2) of
              (Some s1, Some l1, Some s2) \<Rightarrow>
                (case (valueIfKnownConstant knowledge l1,
                       valueIfKnownConstant knowledge s1,
                       valueIfKnownConstant knowledge s2) of
                   (Some length1, Some start1, Some start2) \<Rightarrow>
                      start1 + length1 \<ge> start1 \<and> start1 + length1 \<le> start2
                 | _ \<Rightarrow> False)
            | _ \<Rightarrow> False)
         then True
         else if
           (case (start op2, length_op op2, start op1) of
              (Some s2, Some l2, Some s1) \<Rightarrow>
                (case (valueIfKnownConstant knowledge l2,
                       valueIfKnownConstant knowledge s2,
                       valueIfKnownConstant knowledge s1) of
                   (Some length2, Some start2, Some start1) \<Rightarrow>
                      start2 + length2 \<ge> start2 \<and> start2 + length2 \<le> start1
                 | _ \<Rightarrow> False)
            | _ \<Rightarrow> False)
         then True
         else if
           (case (start op1, length_op op1, start op2, length_op op2) of
              (Some s1, Some l1, Some s2, Some l2) \<Rightarrow>
                (case (valueIfKnownConstant knowledge l1, valueIfKnownConstant knowledge l2) of
                   (Some length1, Some length2) \<Rightarrow>
                      length1 \<le> 32 \<and> length2 \<le> 32 \<and>
                      knownToBeDifferentByAtLeast32 knowledge s1 s2
                 | _ \<Rightarrow> False)
            | _ \<Rightarrow> False)
         then True
         else False))"

text \<open>\<^verbatim>\<open>UnusedStoreEliminator::knownCovered\<close>.\<close>

definition knownCovered :: "KnowledgeBase \<Rightarrow> Operation \<Rightarrow> Operation \<Rightarrow> bool" where
  "knownCovered knowledge covered covering =
    (if location covered \<noteq> location covering then False
     else if (start covered \<noteq> None \<and> start covered = start covering) \<and>
             (length_op covered \<noteq> None \<and> length_op covered = length_op covering)
     then True
     else if location covered = Memory then
       (if (case length_op covered of Some l \<Rightarrow> knownToBeZero knowledge l | None \<Rightarrow> False)
        then True
        else
          (case (start covered, start covering, length_op covered, length_op covering) of
             (Some coveredS, Some coveringS, Some coveredL, Some coveringL) \<Rightarrow>
               (let coveredLength = valueIfKnownConstant knowledge coveredL;
                    coveringLength = valueIfKnownConstant knowledge coveringL
                in
                  if knownToBeEqual knowledge coveredS coveringS \<and>
                     (case (coveredLength, coveringLength) of
                        (Some cl, Some cgl) \<Rightarrow> cl \<le> cgl
                      | _ \<Rightarrow> False)
                  then True
                  else
                    (case (valueIfKnownConstant knowledge coveredS,
                           valueIfKnownConstant knowledge coveringS,
                           coveredLength, coveringLength) of
                       (Some coveredStart, Some coveringStart, Some cl, Some cgl) \<Rightarrow>
                          coveringStart \<le> coveredStart \<and>
                          coveringStart + cgl \<ge> coveringStart \<and>
                          coveredStart + cl \<ge> coveredStart \<and>
                          coveredStart + cl \<le> coveringStart + cgl
                     | _ \<Rightarrow> False))
           | _ \<Rightarrow> False))
     else False)"

section \<open>The language and the collaborators of the pass\<close>

text \<open>
  The part of \<^verbatim>\<open>evmasm::Instruction\<close> that the pass names, the opcodes of the
  scenarios of the specification, and a constructor for every other opcode.
\<close>

datatype Instruction =
    STOP | MLOAD | MSTORE | MSTORE8 | SLOAD | SSTORE | MSIZE
  | CALLDATACOPY | CODECOPY | EXTCODECOPY | RETURNDATASIZE | RETURNDATACOPY
  | RETURN | REVERT | OtherInstruction nat

text \<open>
  Expressions and statements of \<^verbatim>\<open>libyul/AST.h\<close>. A number literal is its value.
  The fields of a \<^verbatim>\<open>ForLoop\<close> are its \<^verbatim>\<open>pre\<close> block, its condition, its \<^verbatim>\<open>post\<close>
  block and its body.
\<close>

datatype Expression =
    Literal u256
  | Identifier YulString
  | FunctionCall YulString "Expression list"

datatype Statement =
    ExpressionStatement Expression
  | Assignment "YulString list" Expression
  | VariableDeclaration "YulString list" "Expression option"
  | FunctionDefinition YulString "YulString list" "YulString list" "Statement list"
  | If_stmt Expression "Statement list"
  | Switch Expression "Case list"
  | ForLoop Loop
  | Break
  | Continue
  | Leave
  | Block "Statement list"
and Case = Case "u256 option" "Statement list"
and Loop = Loop "Statement list" Expression "Statement list" "Statement list"

text \<open>
  A \<^verbatim>\<open>Statement const*\<close> identifies a statement by its address. Here a statement is
  identified by its position: the path of indices that leads to it from the root block
  (inside a switch the index of the case comes first; inside a loop, 0 for the \<^verbatim>\<open>pre\<close>
  block, 1 for the body and 2 for the \<^verbatim>\<open>post\<close> block).
\<close>

type_synonym StatementPtr = "nat list"

text \<open>\<^verbatim>\<open>SideEffects\<close> (the two fields the pass reads) and \<^verbatim>\<open>ControlFlowSideEffects\<close>.\<close>

record SideEffects =
  se_memory :: Effect
  se_storage :: Effect

record ControlFlowSideEffects =
  canTerminate :: bool
  canContinue :: bool

text \<open>
  A built-in function of the dialect, the dialect, and the static functions of
  \<^verbatim>\<open>evmasm::SemanticInformation\<close>: none of them is defined in the source file, so they are
  parameters of the model. \<open>isEVMDialect\<close> says that the dynamic cast to
  \<^verbatim>\<open>EVMDialect\<close> succeeds.
\<close>

record BuiltinFunction =
  sideEffects :: SideEffects
  controlFlowSideEffects :: ControlFlowSideEffects
  instruction :: "Instruction option"

record Dialect =
  builtin :: "YulString \<Rightarrow> BuiltinFunction option"
  isEVMDialect :: bool
  providesObjectAccess :: bool

record SemanticOperation =
  sem_location :: Location
  sem_effect :: Effect
  startParameter :: "nat option"
  lengthParameter :: "nat option"
  lengthConstant :: "nat option"

record SemanticInformation =
  storage :: "Instruction \<Rightarrow> Effect"
  memory :: "Instruction \<Rightarrow> Effect"
  otherState :: "Instruction \<Rightarrow> Effect"
  readWriteOperations :: "Instruction \<Rightarrow> SemanticOperation list"

text \<open>
  The constant members of \<^verbatim>\<open>UnusedStoreEliminator\<close>, together with the two
  collaborators that the class reaches statically: the semantic information of the
  opcodes and the constructor of the knowledge base (from the dialect and the lookup
  into \<open>m_ssaValues\<close>). The value of an SSA variable is its defining expression.
\<close>

record Env =
  m_dialect :: Dialect
  m_functionSideEffects :: "YulString \<rightharpoonup> SideEffects"
  m_controlFlowSideEffects :: "YulString \<rightharpoonup> ControlFlowSideEffects"
  m_ssaValues :: "YulString \<rightharpoonup> Expression"
  m_ignoreMemory :: bool
  semanticInformation :: SemanticInformation
  newKnowledgeBase :: "Dialect \<Rightarrow> (YulString \<rightharpoonup> Expression) \<Rightarrow> KnowledgeBase"

text \<open>
  The mutable members: \<open>m_allStores\<close>, \<open>m_usedStores\<close>, the two entries of
  \<open>m_activeStores\<close> and \<open>m_storeOperations\<close>.
\<close>

record State =
  m_allStores :: "StatementPtr set"
  m_usedStores :: "StatementPtr set"
  activeMemoryStores :: "StatementPtr set"
  activeStorageStores :: "StatementPtr set"
  m_storeOperations :: "StatementPtr \<rightharpoonup> Operation"

text \<open>Variable names for special constants that can never appear in actual Yul code.\<close>

definition zero :: YulString where "zero = ''@ 0''"
definition one :: YulString where "one = ''@ 1''"
definition thirtyTwo :: YulString where "thirtyTwo = ''@ 32''"

text \<open>
  Modelled from the spec: \<^verbatim>\<open>toEVMInstruction\<close> of the optimiser utilities, which is
  not in the source file: the opcode of a callee that is a built-in of an EVM dialect.
\<close>

definition toEVMInstruction :: "Dialect \<Rightarrow> YulString \<Rightarrow> Instruction option" where
  "toEVMInstruction dialect name =
    (if isEVMDialect dialect then
       (case builtin dialect name of Some f \<Rightarrow> instruction f | None \<Rightarrow> None)
     else None)"

text \<open>\<^verbatim>\<open>std::vector::at\<close>, which throws out of range.\<close>

definition vector_at :: "'a list \<Rightarrow> nat \<Rightarrow> 'a option" where
  "vector_at xs i = (if i < length xs then Some (xs ! i) else None)"

definition knowledge :: "Env \<Rightarrow> KnowledgeBase" where
  "knowledge env = newKnowledgeBase env (m_dialect env) (m_ssaValues env)"

section \<open>The operations of a call\<close>

text \<open>\<^verbatim>\<open>UnusedStoreEliminator::identifierNameIfSSA\<close>.\<close>

definition identifierNameIfSSA :: "Env \<Rightarrow> Expression \<Rightarrow> YulString option" where
  "identifierNameIfSSA env expression =
    (case expression of
       Identifier name \<Rightarrow> (if m_ssaValues env name \<noteq> None then Some name else None)
     | _ \<Rightarrow> None)"

text \<open>The function that \<^verbatim>\<open>operationsFromFunctionCall\<close> maps over the operations of an opcode.\<close>

definition operationFromSemantic :: "Env \<Rightarrow> Expression list \<Rightarrow> SemanticOperation \<Rightarrow> Operation option" where
  "operationFromSemantic env arguments sop =
    (if lengthParameter sop \<noteq> None \<and> lengthConstant sop \<noteq> None then None
     else if sem_effect sop = EffectNone then None
     else do {
       start' \<leftarrow> (case startParameter sop of
                    Some i \<Rightarrow> map_option (identifierNameIfSSA env) (vector_at arguments i)
                  | None \<Rightarrow> Some None);
       length' \<leftarrow> (case lengthParameter sop of
                    Some i \<Rightarrow> map_option (identifierNameIfSSA env) (vector_at arguments i)
                  | None \<Rightarrow> Some None);
       length'' \<leftarrow> (case lengthConstant sop of
                    Some c \<Rightarrow> (if c = 1 then Some (Some one)
                               else if c = 32 then Some (Some thirtyTwo)
                               else None)
                  | None \<Rightarrow> Some length');
       Some \<lparr>location = sem_location sop, effect = sem_effect sop,
             start = start', length_op = length''\<rparr>
     })"

text \<open>
  \<^verbatim>\<open>UnusedStoreEliminator::operationsFromFunctionCall\<close>. The lookup of a function
  that is neither a built-in nor in \<open>m_functionSideEffects\<close> throws.
\<close>

definition operationsFromFunctionCall :: "Env \<Rightarrow> YulString \<Rightarrow> Expression list \<Rightarrow> Operation list option" where
  "operationsFromFunctionCall env functionName arguments = do {
     sideEffects' \<leftarrow> (case builtin (m_dialect env) functionName of
                        Some f \<Rightarrow> Some (sideEffects f)
                      | None \<Rightarrow> m_functionSideEffects env functionName);
     (case toEVMInstruction (m_dialect env) functionName of
        None \<Rightarrow>
          Some ((if se_memory sideEffects' \<noteq> EffectNone
                 then [\<lparr>location = Memory, effect = Read, start = None, length_op = None\<rparr>]
                 else []) @
                (if se_storage sideEffects' \<noteq> EffectNone
                 then [\<lparr>location = Storage, effect = Read, start = None, length_op = None\<rparr>]
                 else []))
      | Some instruction' \<Rightarrow>
          those (map (operationFromSemantic env arguments)
                     (readWriteOperations (semanticInformation env) instruction')))
   }"

section \<open>The active sets\<close>

text \<open>\<^verbatim>\<open>UnusedStoreEliminator::clearActive\<close> and \<^verbatim>\<open>markActiveAsUsed\<close>.\<close>

definition clearActive :: "Location option \<Rightarrow> State \<Rightarrow> State" where
  "clearActive onlyLocation s =
    (let s1 = (if onlyLocation = None \<or> onlyLocation = Some Memory
               then s\<lparr>activeMemoryStores := {}\<rparr> else s)
     in (if onlyLocation = None \<or> onlyLocation = Some Storage
         then s1\<lparr>activeStorageStores := {}\<rparr> else s1))"

definition markActiveAsUsed :: "Location option \<Rightarrow> State \<Rightarrow> State" where
  "markActiveAsUsed onlyLocation s =
    (let s1 = (if onlyLocation = None \<or> onlyLocation = Some Memory
               then s\<lparr>m_usedStores := m_usedStores s \<union> activeMemoryStores s\<rparr> else s);
         s2 = (if onlyLocation = None \<or> onlyLocation = Some Storage
               then s1\<lparr>m_usedStores := m_usedStores s1 \<union> activeStorageStores s1\<rparr> else s1)
     in clearActive onlyLocation s2)"

text \<open>
  \<^verbatim>\<open>UnusedStoreEliminator::applyOperation\<close>. The loop over the active set only
  inserts into \<open>m_usedStores\<close> and \<open>toRemove\<close>, so its result does not depend on the
  order of the iteration and is written with set comprehensions: \<open>used\<close> are the
  stores the first branch takes, \<open>covered\<close> those the second takes. The loop throws
  when an active store has no recorded operation, and aborts when the assertion of
  \<open>knownUnrelated\<close> fails; \<open>knownUnrelated\<close> is only evaluated for a read.
\<close>

definition applyOperation :: "Env \<Rightarrow> Operation \<Rightarrow> State \<Rightarrow> State option" where
  "applyOperation env operation s =
    (let active = (if location operation = Storage
                   then activeStorageStores s else activeMemoryStores s)
     in
       if \<exists>statement \<in> active.
            (case m_storeOperations s statement of
               None \<Rightarrow> True
             | Some storeOperation \<Rightarrow>
                 effect operation = Read \<and>
                 knownUnrelated (knowledge env) storeOperation operation = None)
       then None
       else
         (let used = Set.filter (\<lambda>statement.
                  case m_storeOperations s statement of
                    None \<Rightarrow> False
                  | Some storeOperation \<Rightarrow>
                      effect operation = Read \<and>
                      knownUnrelated (knowledge env) storeOperation operation = Some False)
                active;
              covered = Set.filter (\<lambda>statement.
                  case m_storeOperations s statement of
                    None \<Rightarrow> False
                  | Some storeOperation \<Rightarrow>
                      effect operation = Write \<and>
                      knownCovered (knowledge env) storeOperation operation)
                active;
              toRemove = used \<union> covered;
              s1 = s\<lparr>m_usedStores := m_usedStores s \<union> used\<rparr>
          in Some (if location operation = Storage
                   then s1\<lparr>activeStorageStores := active - toRemove\<rparr>
                   else s1\<lparr>activeMemoryStores := active - toRemove\<rparr>)))"

text \<open>The loop \<^verbatim>\<open>for (Operation const& op: ...) applyOperation(op)\<close>.\<close>

fun applyOperations :: "Env \<Rightarrow> Operation list \<Rightarrow> State \<Rightarrow> State option" where
  "applyOperations env [] s = Some s"
| "applyOperations env (operation # operations) s =
     do { s' \<leftarrow> applyOperation env operation s; applyOperations env operations s' }"

section \<open>The traversal\<close>

text \<open>
  The part of \<^verbatim>\<open>operator()(FunctionCall const&)\<close> that follows the call of the base
  class: the operations of the call are applied, then its control-flow side effects.
\<close>

definition applyFunctionCall :: "Env \<Rightarrow> YulString \<Rightarrow> Expression list \<Rightarrow> State \<Rightarrow> State option" where
  "applyFunctionCall env functionName arguments s = do {
     operations \<leftarrow> operationsFromFunctionCall env functionName arguments;
     s1 \<leftarrow> applyOperations env operations s;
     sideEffects' \<leftarrow> (case builtin (m_dialect env) functionName of
                        Some f \<Rightarrow> Some (controlFlowSideEffects f)
                      | None \<Rightarrow> m_controlFlowSideEffects env functionName);
     (let s2 = (if canTerminate sideEffects' then markActiveAsUsed (Some Storage) s1 else s1)
      in Some (if \<not> canContinue sideEffects' then
                 (let s3 = clearActive (Some Memory) s2
                  in if \<not> canTerminate sideEffects' then clearActive (Some Storage) s3 else s3)
               else s2))
   }"

text \<open>
  \<^verbatim>\<open>operator()(FunctionCall const&)\<close> and the visit of an expression: a literal and an
  identifier have no effect. Modelled from the spec: the walk of the arguments by the
  base class \<^verbatim>\<open>ASTWalker\<close>, which is not in the source file, before the call itself is
  applied. The specification does not give the order of the arguments; they are walked
  from the last to the first here, the order in which Yul evaluates them, and no
  result below depends on the order.
\<close>

fun visit_Expression :: "Env \<Rightarrow> Expression \<Rightarrow> State \<Rightarrow> State option"
and walkArguments :: "Env \<Rightarrow> Expression list \<Rightarrow> State \<Rightarrow> State option" where
  "visit_Expression env (Literal v) s = Some s"
| "visit_Expression env (Identifier name) s = Some s"
| "visit_Expression env (FunctionCall functionName arguments) s =
     do { s' \<leftarrow> walkArguments env arguments s;
          applyFunctionCall env functionName arguments s' }"
| "walkArguments env [] s = Some s"
| "walkArguments env (argument # arguments) s =
     do { s' \<leftarrow> walkArguments env arguments s; visit_Expression env argument s' }"

text \<open>The two opcode tests of \<^verbatim>\<open>visit\<close>.\<close>

definition isStorageWrite :: "Instruction \<Rightarrow> bool" where
  "isStorageWrite instruction' = (instruction' = SSTORE)"

definition isMemoryWrite :: "Instruction \<Rightarrow> bool" where
  "isMemoryWrite instruction' =
    (instruction' = EXTCODECOPY \<or> instruction' = CODECOPY \<or> instruction' = CALLDATACOPY \<or>
     instruction' = RETURNDATACOPY \<or> instruction' = MSTORE \<or> instruction' = MSTORE8)"

definition isCandidateForRemoval :: "Env \<Rightarrow> Instruction \<Rightarrow> bool" where
  "isCandidateForRemoval env instruction' =
    (otherState (semanticInformation env) instruction' \<noteq> Write \<and>
     (storage (semanticInformation env) instruction' = Write \<or>
      (\<not> m_ignoreMemory env \<and> memory (semanticInformation env) instruction' = Write)))"

text \<open>
  The test of \<^verbatim>\<open>visit\<close> on a \<^verbatim>\<open>returndatacopy\<close>: \<open>None\<close> when the call has fewer
  than three arguments (\<^verbatim>\<open>at\<close> throws).
\<close>

definition allowReturndatacopyToBeRemoved :: "Env \<Rightarrow> Expression list \<Rightarrow> bool option" where
  "allowReturndatacopyToBeRemoved env arguments = do {
     argument1 \<leftarrow> vector_at arguments 1;
     argument2 \<leftarrow> vector_at arguments 2;
     (let startOffset = identifierNameIfSSA env argument1;
          length' = identifierNameIfSSA env argument2
      in Some (case (length', startOffset) of
                 (Some l, Some so) \<Rightarrow>
                   (case m_ssaValues env l of
                      Some (FunctionCall lengthName lengthArguments) \<Rightarrow>
                        knownToBeZero (knowledge env) so \<and>
                        toEVMInstruction (m_dialect env) lengthName = Some RETURNDATASIZE
                    | _ \<Rightarrow> False)
               | _ \<Rightarrow> False))
   }"

text \<open>The end of \<^verbatim>\<open>visit\<close>: the statement is recorded as a store.\<close>

definition insertStore :: "Env \<Rightarrow> StatementPtr \<Rightarrow> YulString \<Rightarrow> Expression list \<Rightarrow> State \<Rightarrow> State option" where
  "insertStore env statement functionName arguments s = do {
     operations \<leftarrow> operationsFromFunctionCall env functionName arguments;
     (case operations of
        [operation] \<Rightarrow>
          (let s1 = s\<lparr>m_allStores := insert statement (m_allStores s)\<rparr>;
               s2 = (if location operation = Storage
                     then s1\<lparr>activeStorageStores := insert statement (activeStorageStores s1)\<rparr>
                     else s1\<lparr>activeMemoryStores := insert statement (activeMemoryStores s1)\<rparr>)
           in Some (s2\<lparr>m_storeOperations := (m_storeOperations s2)(statement \<mapsto> operation)\<rparr>))
      | _ \<Rightarrow> None)
   }"

text \<open>
  The part of \<^verbatim>\<open>visit(Statement const&)\<close> that follows the call of the base class,
  for an expression statement (for any other statement it returns at once). An
  expression statement that is not a call fails the first assertion.
\<close>

definition visitStore :: "Env \<Rightarrow> StatementPtr \<Rightarrow> Expression \<Rightarrow> State \<Rightarrow> State option" where
  "visitStore env statement expression s =
    (case expression of
       FunctionCall functionName arguments \<Rightarrow>
         (case toEVMInstruction (m_dialect env) functionName of
            None \<Rightarrow> Some s
          | Some instruction' \<Rightarrow>
              if \<not> list_all (\<lambda>e. case e of Identifier n \<Rightarrow> True | Literal v \<Rightarrow> True | _ \<Rightarrow> False)
                        arguments
              then Some s
              else if isCandidateForRemoval env instruction' \<noteq>
                      (isStorageWrite instruction' \<or>
                       (\<not> m_ignoreMemory env \<and> isMemoryWrite instruction'))
              then None
              else if \<not> isCandidateForRemoval env instruction' then Some s
              else if instruction' = RETURNDATACOPY then
                (case allowReturndatacopyToBeRemoved env arguments of
                   None \<Rightarrow> None
                 | Some allow \<Rightarrow>
                     if \<not> allow then Some s
                     else insertStore env statement functionName arguments s)
              else insertStore env statement functionName arguments s)
     | _ \<Rightarrow> None)"

text \<open>
  Modelled from the spec: the joins of the shared base class \<^verbatim>\<open>UnusedStoreBase\<close>,
  which is not in the source file. After a conditional, the stores that are active are
  those active on both paths. \<open>restoreActive s s'\<close> is \<open>s'\<close> with the active sets of
  \<open>s\<close>, \<open>meetActive s s'\<close> is \<open>s'\<close> with the active sets that both have.
\<close>

definition restoreActive :: "State \<Rightarrow> State \<Rightarrow> State" where
  "restoreActive s s' =
    s'\<lparr>activeMemoryStores := activeMemoryStores s,
       activeStorageStores := activeStorageStores s\<rparr>"

definition meetActive :: "State \<Rightarrow> State \<Rightarrow> State" where
  "meetActive s s' =
    s'\<lparr>activeMemoryStores := activeMemoryStores s' \<inter> activeMemoryStores s,
       activeStorageStores := activeStorageStores s' \<inter> activeStorageStores s\<rparr>"

text \<open>
  Modelled from the spec: the boundary of an iteration of a loop, in the base class that
  is not in the source file. The stores that were introduced inside the loop (active
  in \<open>s'\<close>, not active in the state \<open>s\<close> at the start of the iteration) are marked as
  used.
\<close>

definition markIntroducedAsUsed :: "State \<Rightarrow> State \<Rightarrow> State" where
  "markIntroducedAsUsed s s' =
    s'\<lparr>m_usedStores := m_usedStores s' \<union>
         (activeMemoryStores s' - activeMemoryStores s) \<union>
         (activeStorageStores s' - activeStorageStores s)\<rparr>"

text \<open>
  \<^verbatim>\<open>visit(Statement const&)\<close> with the dispatch of the base class, on the statement
  at the position \<open>p\<close>.
  \<^item> An expression statement: the expression is visited, then the statement is
    classified (\<open>visitStore\<close>).
  \<^item> \<^verbatim>\<open>operator()(FunctionDefinition const&)\<close>: \<open>m_storeOperations\<close> is empty inside
    the function and restored after it. Modelled from the spec: the base class resets
    the active sets for the body and restores them after it.
  \<^item> \<^verbatim>\<open>operator()(Leave const&)\<close>: all active stores are marked as used.
  \<^item> Modelled from the spec: after \<^verbatim>\<open>if\<close>, the active stores are those of the body
    that were active before it; after \<^verbatim>\<open>switch\<close>, those active after every case,
    and before the switch when it has no default case.
  \<^item> Modelled from the spec: a loop runs its \<^verbatim>\<open>pre\<close> block, then iterates body, \<^verbatim>\<open>post\<close>
    block and condition until the active sets reach a fixed point (\<open>forIterate\<close>).
    An iteration runs from the active sets of \<open>entry\<close>; at its boundary the stores
    introduced inside the loop are marked as used, and the next iteration runs from
    the stores of \<open>entry\<close> that are still active. The loop ends when these are all of
    \<open>entry\<close>: they remain active after the loop.
  \<^item> Modelled from the spec: the specification gives no rule for \<^verbatim>\<open>break\<close> and
    \<^verbatim>\<open>continue\<close>; they leave the state as it is.
  \<open>walkVector\<close> visits the statements of a block, the first of them at index \<open>i\<close>;
  \<open>walkCases\<close> runs the cases of a switch from the state \<open>pre\<close> before the first
  case, \<open>acc\<close> holding the join of the cases already run. \<open>forIterate\<close> takes the
  number of iterations it may still run: each iteration but the last removes a store
  from the entry sets, so one more than the number of stores active after the \<^verbatim>\<open>pre\<close>
  block is enough (\<open>None\<close> when it is not).
\<close>

fun visit :: "Env \<Rightarrow> StatementPtr \<Rightarrow> Statement \<Rightarrow> State \<Rightarrow> State option"
and walkVector :: "Env \<Rightarrow> StatementPtr \<Rightarrow> nat \<Rightarrow> Statement list \<Rightarrow> State \<Rightarrow> State option"
and walkCases :: "Env \<Rightarrow> StatementPtr \<Rightarrow> nat \<Rightarrow> Case list \<Rightarrow> State \<Rightarrow> State option \<Rightarrow> State \<Rightarrow> State option"
and forIterate :: "Env \<Rightarrow> StatementPtr \<Rightarrow> nat \<Rightarrow> Loop \<Rightarrow> State \<Rightarrow> State \<Rightarrow> State option" where
  "visit env p (ExpressionStatement expression) s =
     do { s' \<leftarrow> visit_Expression env expression s; visitStore env p expression s' }"
| "visit env p (Assignment names v) s = visit_Expression env v s"
| "visit env p (VariableDeclaration names v) s =
     (case v of Some expression \<Rightarrow> visit_Expression env expression s | None \<Rightarrow> Some s)"
| "visit env p (FunctionDefinition name parameters returns body) s =
     do { s' \<leftarrow> walkVector env p 0 body
                  (s\<lparr>activeMemoryStores := {}, activeStorageStores := {},
                     m_storeOperations := Map.empty\<rparr>);
          Some (restoreActive s (s'\<lparr>m_storeOperations := m_storeOperations s\<rparr>)) }"
| "visit env p (If_stmt condition body) s =
     do { s1 \<leftarrow> visit_Expression env condition s;
          s2 \<leftarrow> walkVector env p 0 body s1;
          Some (meetActive s1 s2) }"
| "visit env p (Switch expression cases) s =
     do { s1 \<leftarrow> visit_Expression env expression s;
          walkCases env p 0 cases s1
            (if list_ex (\<lambda>c. case c of Case v body \<Rightarrow> v = None) cases then None else Some s1)
            s1 }"
| "visit env p (ForLoop (Loop pre condition post body)) s =
     do { s0 \<leftarrow> walkVector env (p @ [0]) 0 pre s;
          forIterate env p
            (Suc (card (activeMemoryStores s0) + card (activeStorageStores s0)))
            (Loop pre condition post body) s0 s0 }"
| "visit env p Break s = Some s"
| "visit env p Continue s = Some s"
| "visit env p Leave s = Some (markActiveAsUsed None s)"
| "visit env p (Block statements) s = walkVector env p 0 statements s"
| "walkVector env p i [] s = Some s"
| "walkVector env p i (statement # statements) s =
     do { s' \<leftarrow> visit env (p @ [i]) statement s;
          walkVector env p (Suc i) statements s' }"
| "walkCases env p j [] pre acc s =
     Some (case acc of None \<Rightarrow> s | Some joined \<Rightarrow> restoreActive joined s)"
| "walkCases env p j (Case v body # cases) pre acc s =
     do { s' \<leftarrow> walkVector env (p @ [j]) 0 body (restoreActive pre s);
          walkCases env p (Suc j) cases pre
            (Some (case acc of None \<Rightarrow> s' | Some joined \<Rightarrow> meetActive joined s')) s' }"
| "forIterate env p 0 loop entry s = None"
| "forIterate env p (Suc n) (Loop pre condition post body) entry s =
     do { s1 \<leftarrow> walkVector env (p @ [1]) 0 body (restoreActive entry s);
          s2 \<leftarrow> walkVector env (p @ [2]) 0 post s1;
          s3 \<leftarrow> visit_Expression env condition s2;
          (let next = meetActive entry (markIntroducedAsUsed entry s3)
           in if activeMemoryStores next = activeMemoryStores entry \<and>
                 activeStorageStores next = activeStorageStores entry
              then Some next
              else forIterate env p n (Loop pre condition post body) next next) }"

section \<open>The driver\<close>

text \<open>
  What \<^verbatim>\<open>run\<close> gets from its context and from the analyses it calls on the program
  (\<^verbatim>\<open>SideEffectsPropagator\<close>, \<^verbatim>\<open>SSAValueTracker\<close>, \<^verbatim>\<open>ControlFlowSideEffectsCollector\<close>),
  none of which is in the source file: their results are parameters.
\<close>

record Context =
  dialect :: Dialect
  functionSideEffects :: "YulString \<rightharpoonup> SideEffects"
  functionSideEffectsNamed :: "YulString \<rightharpoonup> ControlFlowSideEffects"
  ssaValues :: "YulString \<rightharpoonup> Expression"
  ctx_semanticInformation :: SemanticInformation
  ctx_newKnowledgeBase :: "Dialect \<Rightarrow> (YulString \<rightharpoonup> Expression) \<Rightarrow> KnowledgeBase"

text \<open>
  Modelled from the spec: \<^verbatim>\<open>MSizeFinder::containsMSize\<close>, which is not part of the
  file: the program contains a call of the \<^verbatim>\<open>msize\<close> opcode anywhere.
\<close>

fun containsMSize_Expression :: "Dialect \<Rightarrow> Expression \<Rightarrow> bool"
and containsMSize_Arguments :: "Dialect \<Rightarrow> Expression list \<Rightarrow> bool" where
  "containsMSize_Expression d (Literal v) = False"
| "containsMSize_Expression d (Identifier name) = False"
| "containsMSize_Expression d (FunctionCall functionName arguments) =
     (toEVMInstruction d functionName = Some MSIZE \<or> containsMSize_Arguments d arguments)"
| "containsMSize_Arguments d [] = False"
| "containsMSize_Arguments d (argument # arguments) =
     (containsMSize_Expression d argument \<or> containsMSize_Arguments d arguments)"

fun containsMSize_Statement :: "Dialect \<Rightarrow> Statement \<Rightarrow> bool"
and containsMSize :: "Dialect \<Rightarrow> Statement list \<Rightarrow> bool"
and containsMSize_Cases :: "Dialect \<Rightarrow> Case list \<Rightarrow> bool" where
  "containsMSize_Statement d (ExpressionStatement expression) = containsMSize_Expression d expression"
| "containsMSize_Statement d (Assignment names v) = containsMSize_Expression d v"
| "containsMSize_Statement d (VariableDeclaration names v) =
     (case v of Some expression \<Rightarrow> containsMSize_Expression d expression | None \<Rightarrow> False)"
| "containsMSize_Statement d (FunctionDefinition name parameters returns body) = containsMSize d body"
| "containsMSize_Statement d (If_stmt condition body) =
     (containsMSize_Expression d condition \<or> containsMSize d body)"
| "containsMSize_Statement d (Switch expression cases) =
     (containsMSize_Expression d expression \<or> containsMSize_Cases d cases)"
| "containsMSize_Statement d (ForLoop (Loop pre condition post body)) =
     (containsMSize d pre \<or> containsMSize_Expression d condition \<or>
      containsMSize d post \<or> containsMSize d body)"
| "containsMSize_Statement d Break = False"
| "containsMSize_Statement d Continue = False"
| "containsMSize_Statement d Leave = False"
| "containsMSize_Statement d (Block statements) = containsMSize d statements"
| "containsMSize d [] = False"
| "containsMSize d (statement # statements) =
     (containsMSize_Statement d statement \<or> containsMSize d statements)"
| "containsMSize_Cases d [] = False"
| "containsMSize_Cases d (Case v body # cases) = (containsMSize d body \<or> containsMSize_Cases d cases)"

text \<open>
  The pass object that \<^verbatim>\<open>run\<close> constructs: the values of the SSA variables with the
  three special constants bound to their literals, and \<open>ignoreMemory\<close>.
\<close>

definition newUnusedStoreEliminator :: "Context \<Rightarrow> Statement list \<Rightarrow> Env" where
  "newUnusedStoreEliminator context ast =
    \<lparr>m_dialect = dialect context,
     m_functionSideEffects = functionSideEffects context,
     m_controlFlowSideEffects = functionSideEffectsNamed context,
     m_ssaValues = (ssaValues context)
        (zero \<mapsto> Literal 0, one \<mapsto> Literal 1, thirtyTwo \<mapsto> Literal 32),
     m_ignoreMemory = containsMSize (dialect context) ast,
     semanticInformation = ctx_semanticInformation context,
     newKnowledgeBase = ctx_newKnowledgeBase context\<rparr>"

definition emptyState :: State where
  "emptyState =
    \<lparr>m_allStores = {}, m_usedStores = {}, activeMemoryStores = {},
     activeStorageStores = {}, m_storeOperations = Map.empty\<rparr>"

text \<open>The finalization of \<^verbatim>\<open>run\<close>, after the walk of the root block.\<close>

definition finalize :: "Dialect \<Rightarrow> State \<Rightarrow> State" where
  "finalize d s =
    markActiveAsUsed (Some Storage)
      (if isEVMDialect d \<and> providesObjectAccess d
       then clearActive (Some Memory) s
       else markActiveAsUsed (Some Memory) s)"

text \<open>
  \<^verbatim>\<open>UnusedStoreEliminator::run\<close> on the statements of the root block: the result is the
  set of statements handed to the \<^verbatim>\<open>StatementRemover\<close>, or \<open>None\<close> when the pass aborts.
\<close>

definition run :: "Context \<Rightarrow> Statement list \<Rightarrow> StatementPtr set option" where
  "run context ast = do {
     s \<leftarrow> walkVector (newUnusedStoreEliminator context ast) [] 0 ast emptyState;
     (let rse = finalize (dialect context) s
      in Some (m_allStores rse - m_usedStores rse))
   }"

text \<open>The statement at a position of a program.\<close>

fun stmt_at :: "Statement list \<Rightarrow> StatementPtr \<Rightarrow> Statement option" where
  "stmt_at statements [] = None"
| "stmt_at statements [i] = vector_at statements i"
| "stmt_at statements (i # j # p) =
     (case vector_at statements i of
        Some (FunctionDefinition name parameters returns body) \<Rightarrow> stmt_at body (j # p)
      | Some (If_stmt condition body) \<Rightarrow> stmt_at body (j # p)
      | Some (Block body) \<Rightarrow> stmt_at body (j # p)
      | Some (Switch expression cases) \<Rightarrow>
          (case vector_at cases j of
             Some (Case v body) \<Rightarrow> stmt_at body p
           | None \<Rightarrow> None)
      | Some (ForLoop (Loop pre condition post body)) \<Rightarrow>
          (if j = 0 then stmt_at pre p
           else if j = 1 then stmt_at body p
           else if j = 2 then stmt_at post p
           else None)
      | _ \<Rightarrow> None)"

section \<open>A knowledge base, a dialect and programs to run the pass on\<close>

text \<open>
  Modelled from the spec: a knowledge base, for the class \<^verbatim>\<open>KnowledgeBase\<close> that is not
  in the source file. It answers from the literals bound in the value map alone: a
  variable is a known constant when its value is a literal, two variables are known to
  be equal when they are the same, and known to be different (by at least 32) when both
  are known constants that differ (by at least 32, in both directions).
\<close>

definition literalKnowledgeBase :: "Dialect \<Rightarrow> (YulString \<rightharpoonup> Expression) \<Rightarrow> KnowledgeBase" where
  "literalKnowledgeBase d values =
    (let constant = (\<lambda>v. case values v of Some (Literal n) \<Rightarrow> Some n | _ \<Rightarrow> None)
     in \<lparr>valueIfKnownConstant = constant,
         knownToBeZero = (\<lambda>v. constant v = Some 0),
         knownToBeDifferent = (\<lambda>u v.
            case (constant u, constant v) of (Some a, Some b) \<Rightarrow> a \<noteq> b | _ \<Rightarrow> False),
         knownToBeDifferentByAtLeast32 = (\<lambda>u v.
            case (constant u, constant v) of
              (Some a, Some b) \<Rightarrow> 32 \<le> a - b \<and> a - b \<le> 0 - 32
            | _ \<Rightarrow> False),
         knownToBeEqual = (\<lambda>u v. u = v)\<rparr>)"

text \<open>
  Modelled from the spec: the semantic information of the opcodes of the scenarios of
  the specification, for \<^verbatim>\<open>evmasm::SemanticInformation\<close> that is not in the source file.
  \<^verbatim>\<open>mstore\<close> writes 32 bytes of memory at its first argument and \<^verbatim>\<open>mstore8\<close> one byte,
  \<^verbatim>\<open>mload\<close> reads 32 bytes, \<^verbatim>\<open>sstore\<close> writes and \<^verbatim>\<open>sload\<close> reads the one storage
  slot of its first argument (the length that \<open>knownUnrelated\<close> asserts),
  \<^verbatim>\<open>return\<close> and \<^verbatim>\<open>revert\<close> read the memory at their first argument of the length of
  their second, the copy opcodes write memory at their first argument of the length
  of their last.
\<close>

definition semanticOperation :: "Location \<Rightarrow> Effect \<Rightarrow> nat option \<Rightarrow> nat option \<Rightarrow> nat option \<Rightarrow> SemanticOperation" where
  "semanticOperation l e sp lp lc =
    \<lparr>sem_location = l, sem_effect = e, startParameter = sp, lengthParameter = lp,
     lengthConstant = lc\<rparr>"

definition exampleSemanticInformation :: SemanticInformation where
  "exampleSemanticInformation =
    \<lparr>storage = (\<lambda>i. if i = SSTORE then Write else if i = SLOAD then Read else EffectNone),
     memory = (\<lambda>i. if isMemoryWrite i then Write
                    else if i = MLOAD \<or> i = RETURN \<or> i = REVERT then Read
                    else EffectNone),
     otherState = (\<lambda>i. EffectNone),
     readWriteOperations = (\<lambda>i.
       case i of
         MSTORE \<Rightarrow> [semanticOperation Memory Write (Some 0) None (Some 32)]
       | MSTORE8 \<Rightarrow> [semanticOperation Memory Write (Some 0) None (Some 1)]
       | MLOAD \<Rightarrow> [semanticOperation Memory Read (Some 0) None (Some 32)]
       | SSTORE \<Rightarrow> [semanticOperation Storage Write (Some 0) None (Some 1)]
       | SLOAD \<Rightarrow> [semanticOperation Storage Read (Some 0) None (Some 1)]
       | RETURN \<Rightarrow> [semanticOperation Memory Read (Some 0) (Some 1) None]
       | REVERT \<Rightarrow> [semanticOperation Memory Read (Some 0) (Some 1) None]
       | CALLDATACOPY \<Rightarrow> [semanticOperation Memory Write (Some 0) (Some 2) None]
       | CODECOPY \<Rightarrow> [semanticOperation Memory Write (Some 0) (Some 2) None]
       | RETURNDATACOPY \<Rightarrow> [semanticOperation Memory Write (Some 0) (Some 2) None]
       | EXTCODECOPY \<Rightarrow> [semanticOperation Memory Write (Some 1) (Some 3) None]
       | _ \<Rightarrow> [])\<rparr>"

text \<open>
  Modelled from the spec: the built-in functions of an EVM dialect for these opcodes.
  \<^verbatim>\<open>return\<close> and \<^verbatim>\<open>stop\<close> terminate, \<^verbatim>\<open>revert\<close> neither continues nor terminates.
\<close>

definition evmBuiltin :: "Instruction \<Rightarrow> bool \<Rightarrow> bool \<Rightarrow> BuiltinFunction" where
  "evmBuiltin i terminates continues =
    \<lparr>sideEffects = \<lparr>se_memory = memory exampleSemanticInformation i,
                    se_storage = storage exampleSemanticInformation i\<rparr>,
     controlFlowSideEffects = \<lparr>canTerminate = terminates, canContinue = continues\<rparr>,
     instruction = Some i\<rparr>"

definition exampleDialect :: Dialect where
  "exampleDialect =
    \<lparr>builtin = map_of
       [(''mstore'', evmBuiltin MSTORE False True),
        (''mstore8'', evmBuiltin MSTORE8 False True),
        (''mload'', evmBuiltin MLOAD False True),
        (''sstore'', evmBuiltin SSTORE False True),
        (''sload'', evmBuiltin SLOAD False True),
        (''msize'', evmBuiltin MSIZE False True),
        (''calldatacopy'', evmBuiltin CALLDATACOPY False True),
        (''returndatasize'', evmBuiltin RETURNDATASIZE False True),
        (''returndatacopy'', evmBuiltin RETURNDATACOPY False True),
        (''return'', evmBuiltin RETURN True False),
        (''revert'', evmBuiltin REVERT False False),
        (''stop'', evmBuiltin STOP True False)],
     isEVMDialect = True,
     providesObjectAccess = True\<rparr>"

text \<open>The context of a program without user-defined functions, given its SSA values.\<close>

definition exampleContext :: "(YulString \<rightharpoonup> Expression) \<Rightarrow> Context" where
  "exampleContext values =
    \<lparr>dialect = exampleDialect,
     functionSideEffects = Map.empty,
     functionSideEffectsNamed = Map.empty,
     ssaValues = values,
     ctx_semanticInformation = exampleSemanticInformation,
     ctx_newKnowledgeBase = literalKnowledgeBase\<rparr>"

text \<open>The call \<open>f(arguments)\<close> as a statement.\<close>

definition call :: "YulString \<Rightarrow> Expression list \<Rightarrow> Statement" where
  "call f arguments = ExpressionStatement (FunctionCall f arguments)"

text \<open>\<^verbatim>\<open>mstore(0, 1) mstore(0, 2) return(0, 32)\<close>\<close>

definition simpleDeadStore :: "Statement list" where
  "simpleDeadStore =
    [call ''mstore'' [Literal 0, Literal 1],
     call ''mstore'' [Literal 0, Literal 2],
     call ''return'' [Literal 0, Literal 32]]"

text \<open>
  The same program with every argument in a variable, and the values of its
  variables:
  \<^verbatim>\<open>let a := 0 let b := 1 let c := 2 let d := 32 mstore(a, b) mstore(a, c) return(a, d)\<close>
\<close>

definition simpleDeadStoreSSA :: "Statement list" where
  "simpleDeadStoreSSA =
    [VariableDeclaration [''a''] (Some (Literal 0)),
     VariableDeclaration [''b''] (Some (Literal 1)),
     VariableDeclaration [''c''] (Some (Literal 2)),
     VariableDeclaration [''d''] (Some (Literal 32)),
     call ''mstore'' [Identifier ''a'', Identifier ''b''],
     call ''mstore'' [Identifier ''a'', Identifier ''c''],
     call ''return'' [Identifier ''a'', Identifier ''d'']]"

definition simpleDeadStoreValues :: "YulString \<rightharpoonup> Expression" where
  "simpleDeadStoreValues =
    [''a'' \<mapsto> Literal 0, ''b'' \<mapsto> Literal 1, ''c'' \<mapsto> Literal 2, ''d'' \<mapsto> Literal 32]"

text \<open>
  The operation of \<^verbatim>\<open>mstore(a, b)\<close> for an SSA variable \<open>a\<close>, of \<^verbatim>\<open>calldatacopy(a, b, z)\<close>
  for SSA variables \<open>a\<close> and \<open>z\<close>, and of \<^verbatim>\<open>sstore(0, 1)\<close>, whose slot is a literal
  and so not recorded; and a value map that binds \<open>a\<close> and \<open>z\<close> to 0.
\<close>

definition mstoreOperation :: Operation where
  "mstoreOperation =
    \<lparr>location = Memory, effect = Write, start = Some ''a'', length_op = Some thirtyTwo\<rparr>"


definition sstoreLiteralOperation :: Operation where
  "sstoreLiteralOperation =
    \<lparr>location = Storage, effect = Write, start = None, length_op = Some one\<rparr>"

definition exampleValues :: "YulString \<rightharpoonup> Expression" where
  "exampleValues =
    [''a'' \<mapsto> Literal 0, ''z'' \<mapsto> Literal 0,
     zero \<mapsto> Literal 0, one \<mapsto> Literal 1, thirtyTwo \<mapsto> Literal 32]"

definition exampleKnowledge :: KnowledgeBase where
  "exampleKnowledge = literalKnowledgeBase exampleDialect exampleValues"

text \<open>
  The read of \<^verbatim>\<open>sload(0)\<close>, whose slot is a literal, and a state in which the store
  \<^verbatim>\<open>sstore(0, 1)\<close> at position 0 is active.
\<close>

definition sloadLiteralOperation :: Operation where
  "sloadLiteralOperation =
    \<lparr>location = Storage, effect = Read, start = None, length_op = Some one\<rparr>"

definition sstoreActiveState :: State where
  "sstoreActiveState =
    \<lparr>m_allStores = {[0]}, m_usedStores = {}, activeMemoryStores = {},
     activeStorageStores = {[0]}, m_storeOperations = [[0] \<mapsto> sstoreLiteralOperation]\<rparr>"

definition exampleEnv :: Env where
  "exampleEnv = newUnusedStoreEliminator (exampleContext Map.empty) []"

section \<open>What the pass assumes of the knowledge base\<close>



section \<open>Programs for the classification of stores\<close>

text \<open>
  \<^verbatim>\<open>let z := 0 let l := returndatasize() returndatacopy(z, z, l)\<close>, the one shape of
  \<^verbatim>\<open>returndatacopy\<close> that the pass removes; a loop whose body copies with a literal
  length, \<^verbatim>\<open>let z := 0 for {} z {} { returndatacopy(z, z, 32) }\<close>; and a program
  with \<^verbatim>\<open>msize\<close> that stores in a loop:
  \<^verbatim>\<open>let a := 0 let m := msize() for {} a {} { mstore(a, m) sstore(a, m) }\<close>.
\<close>

definition returndatacopyProgram :: "Statement list" where
  "returndatacopyProgram =
    [VariableDeclaration [''z''] (Some (Literal 0)),
     VariableDeclaration [''l''] (Some (FunctionCall ''returndatasize'' [])),
     call ''returndatacopy'' [Identifier ''z'', Identifier ''z'', Identifier ''l'']]"

definition returndatacopyValues :: "YulString \<rightharpoonup> Expression" where
  "returndatacopyValues = [''z'' \<mapsto> Literal 0, ''l'' \<mapsto> FunctionCall ''returndatasize'' []]"

definition literalLengthCopy :: "Statement list" where
  "literalLengthCopy =
    [VariableDeclaration [''z''] (Some (Literal 0)),
     ForLoop (Loop [] (Identifier ''z'') []
       [call ''returndatacopy'' [Identifier ''z'', Identifier ''z'', Literal 32]])]"

definition literalLengthCopyValues :: "YulString \<rightharpoonup> Expression" where
  "literalLengthCopyValues = [''z'' \<mapsto> Literal 0]"

definition msizeProgram :: "Statement list" where
  "msizeProgram =
    [VariableDeclaration [''a''] (Some (Literal 0)),
     VariableDeclaration [''m''] (Some (FunctionCall ''msize'' [])),
     ForLoop (Loop [] (Identifier ''a'') []
       [call ''mstore'' [Identifier ''a'', Identifier ''m''],
        call ''sstore'' [Identifier ''a'', Identifier ''m'']])]"

definition msizeValues :: "YulString \<rightharpoonup> Expression" where
  "msizeValues = [''a'' \<mapsto> Literal 0, ''m'' \<mapsto> FunctionCall ''msize'' []]"

text \<open>
  The pass object for the program \<open>simpleDeadStoreSSA\<close>, and the operations of
  \<^verbatim>\<open>sstore(a, b)\<close> and \<^verbatim>\<open>sload(a)\<close> in it.
\<close>

definition ssaEnv :: Env where
  "ssaEnv = newUnusedStoreEliminator (exampleContext simpleDeadStoreValues) simpleDeadStoreSSA"

definition sstoreOperation :: Operation where
  "sstoreOperation =
    \<lparr>location = Storage, effect = Write, start = Some ''a'', length_op = Some one\<rparr>"

definition sloadOperation :: Operation where
  "sloadOperation =
    \<lparr>location = Storage, effect = Read, start = Some ''a'', length_op = Some one\<rparr>"

section \<open>Invariants of the traversal\<close>

text \<open>
  The condition under which \<open>visitStore\<close> records the call \<open>f(arguments)\<close> as a store
  (when its assertion holds): the callee is an opcode, every argument is an identifier
  or a literal, the opcode is \<^verbatim>\<open>sstore\<close> or, when memory is not ignored, one of the
  memory writes, and a \<^verbatim>\<open>returndatacopy\<close> passes its test.
\<close>

definition storeCandidate :: "Env \<Rightarrow> YulString \<Rightarrow> Expression list \<Rightarrow> bool" where
  "storeCandidate env functionName arguments =
    (case toEVMInstruction (m_dialect env) functionName of
       None \<Rightarrow> False
     | Some instruction' \<Rightarrow>
         list_all (\<lambda>e. case e of Identifier n \<Rightarrow> True | Literal v \<Rightarrow> True | _ \<Rightarrow> False)
           arguments \<and>
         (isStorageWrite instruction' \<or> (\<not> m_ignoreMemory env \<and> isMemoryWrite instruction')) \<and>
         (instruction' = RETURNDATACOPY \<longrightarrow>
            allowReturndatacopyToBeRemoved env arguments = Some True))"

definition isStoreAt :: "Env \<Rightarrow> Statement option \<Rightarrow> bool" where
  "isStoreAt env statement =
    (case statement of
       Some (ExpressionStatement (FunctionCall functionName arguments)) \<Rightarrow>
         storeCandidate env functionName arguments
     | _ \<Rightarrow> False)"

text \<open>
  The statement at a position relative to a statement (\<open>sub_at\<close>), to the cases of a
  switch (\<open>case_at\<close>) and to the blocks of a loop (\<open>loop_at\<close>), in the numbering of
  \<open>stmt_at\<close>.
\<close>

definition case_at :: "Case list \<Rightarrow> StatementPtr \<Rightarrow> Statement option" where
  "case_at cases r =
    (case r of
       [] \<Rightarrow> None
     | j # r' \<Rightarrow>
         (case vector_at cases j of
            Some (Case v body) \<Rightarrow> stmt_at body r'
          | None \<Rightarrow> None))"

definition loop_at :: "Loop \<Rightarrow> StatementPtr \<Rightarrow> Statement option" where
  "loop_at loop r =
    (case (loop, r) of
       (Loop pre condition post body, j # r') \<Rightarrow>
         (if j = 0 then stmt_at pre r'
          else if j = 1 then stmt_at body r'
          else if j = 2 then stmt_at post r'
          else None)
     | _ \<Rightarrow> None)"

definition sub_at :: "Statement \<Rightarrow> StatementPtr \<Rightarrow> Statement option" where
  "sub_at statement r =
    (if r = [] then Some statement
     else
       (case statement of
          FunctionDefinition name parameters returns body \<Rightarrow> stmt_at body r
        | If_stmt condition body \<Rightarrow> stmt_at body r
        | Block body \<Rightarrow> stmt_at body r
        | Switch expression cases \<Rightarrow> case_at cases r
        | ForLoop loop \<Rightarrow> loop_at loop r
        | _ \<Rightarrow> None))"

text \<open>
  What a visit of an expression may do to the state: no store is recorded, stores are
  marked as used only from the active sets, and the active sets only lose members.
\<close>

definition shrinks :: "State \<Rightarrow> State \<Rightarrow> bool" where
  "shrinks s s' \<longleftrightarrow>
    m_allStores s' = m_allStores s \<and>
    m_storeOperations s' = m_storeOperations s \<and>
    m_usedStores s \<subseteq> m_usedStores s' \<and>
    m_usedStores s' \<subseteq> m_usedStores s \<union> activeMemoryStores s \<union> activeStorageStores s \<and>
    activeMemoryStores s' \<subseteq> activeMemoryStores s \<and>
    activeStorageStores s' \<subseteq> activeStorageStores s"

text \<open>
  The invariant of the data model: the active sets and the used set are within the set
  of all stores, and no store is active for both locations. \<open>activeWithin a s\<close> says
  so of the active sets of a saved state \<open>a\<close>; \<open>grows s s'\<close> says that \<open>m_allStores\<close>
  and \<open>m_usedStores\<close> only gained members from \<open>s\<close> to \<open>s'\<close>.
\<close>

definition invariant :: "State \<Rightarrow> bool" where
  "invariant s \<longleftrightarrow>
    activeMemoryStores s \<subseteq> m_allStores s \<and>
    activeStorageStores s \<subseteq> m_allStores s \<and>
    activeMemoryStores s \<inter> activeStorageStores s = {} \<and>
    m_usedStores s \<subseteq> m_allStores s"

definition activeWithin :: "State \<Rightarrow> State \<Rightarrow> bool" where
  "activeWithin a s \<longleftrightarrow>
    activeMemoryStores a \<subseteq> m_allStores s \<and>
    activeStorageStores a \<subseteq> m_allStores s \<and>
    activeMemoryStores a \<inter> activeStorageStores a = {}"

definition grows :: "State \<Rightarrow> State \<Rightarrow> bool" where
  "grows s s' \<longleftrightarrow> m_allStores s \<subseteq> m_allStores s' \<and> m_usedStores s \<subseteq> m_usedStores s'"

text \<open>An operation that \<open>operationsFromFunctionCall\<close> returns for some call.\<close>

definition produced :: "Env \<Rightarrow> Operation \<Rightarrow> bool" where
  "produced env operation \<longleftrightarrow>
    (\<exists>functionName arguments operations.
       operationsFromFunctionCall env functionName arguments = Some operations \<and>
       operation \<in> set operations)"

text \<open>
  The active set of a location, the set that \<^verbatim>\<open>applyOperation\<close> takes for an
  operation of that location.
\<close>

definition activeStores :: "Location \<Rightarrow> State \<Rightarrow> StatementPtr set" where
  "activeStores l s = (if l = Storage then activeStorageStores s else activeMemoryStores s)"

text \<open>
  The location under which \<open>insertStore\<close> records a statement: the location of the one
  operation of the call, \<open>None\<close> for any other statement. \<open>agrees env ast s\<close> says
  that every active store of \<open>s\<close> is in the active set of the location of the
  statement at its position in the program \<open>ast\<close>. The statements of a loop are
  visited once in every iteration, so a statement can be visited in a state in which
  it is a store already; it is then recorded under the location it has already.
\<close>

definition storeLocation :: "Env \<Rightarrow> Statement option \<Rightarrow> Location option" where
  "storeLocation env statement =
    (case statement of
       Some (ExpressionStatement (FunctionCall functionName arguments)) \<Rightarrow>
         (case operationsFromFunctionCall env functionName arguments of
            Some [operation] \<Rightarrow> Some (location operation)
          | _ \<Rightarrow> None)
     | _ \<Rightarrow> None)"

definition agrees :: "Env \<Rightarrow> Statement list \<Rightarrow> State \<Rightarrow> bool" where
  "agrees env ast s \<longleftrightarrow>
    (\<forall>x \<in> activeMemoryStores s. storeLocation env (stmt_at ast x) = Some Memory) \<and>
    (\<forall>x \<in> activeStorageStores s. storeLocation env (stmt_at ast x) = Some Storage)"

text \<open>
  A state of the pass object \<open>ssaEnv\<close> in which \<^verbatim>\<open>mstore(a, c)\<close> at position 0 and
  \<^verbatim>\<open>sstore(a, c)\<close> at position 1 are active.
\<close>

definition storesActiveState :: State where
  "storesActiveState =
    \<lparr>m_allStores = {[0], [1]}, m_usedStores = {}, activeMemoryStores = {[0]},
     activeStorageStores = {[1]},
     m_storeOperations = [[0] \<mapsto> mstoreOperation, [1] \<mapsto> sstoreOperation]\<rparr>"

text \<open>
  A program with a loop that reads the memory written before it, so that its body is
  analysed twice:
  \<^verbatim>\<open>let a := 0 let b := 1 mstore(a, b) for {} a {} { sstore(a, b) let x := mload(a) }\<close>
\<close>

definition loopProgram :: "Statement list" where
  "loopProgram =
    [VariableDeclaration [''a''] (Some (Literal 0)),
     VariableDeclaration [''b''] (Some (Literal 1)),
     call ''mstore'' [Identifier ''a'', Identifier ''b''],
     ForLoop (Loop [] (Identifier ''a'') []
       [call ''sstore'' [Identifier ''a'', Identifier ''b''],
        VariableDeclaration [''x''] (Some (FunctionCall ''mload'' [Identifier ''a'']))])]"

definition loopValues :: "YulString \<rightharpoonup> Expression" where
  "loopValues = [''a'' \<mapsto> Literal 0, ''b'' \<mapsto> Literal 1]"

definition loopEnv :: Env where
  "loopEnv = newUnusedStoreEliminator (exampleContext loopValues) loopProgram"

section \<open>Properties of the alias predicates\<close>


lemma no_overflow_sum_le_self: "(x::u256) \<le> x + l \<Longrightarrow> x + l \<le> x \<Longrightarrow> l = 0"
  by unat_arith





text \<open>
  Claim C5, as the code has it. \<open>knownCovered a a\<close> holds exactly when \<open>a\<close> has both
  its start and its length, or is a memory operation whose length is known to be zero.
  It does not hold for the other operations: an operation whose start is unknown is not
  known to cover itself.
\<close>

theorem C5_knownCovered_self:
  "knownCovered K a a \<longleftrightarrow>
     (start a \<noteq> None \<and> length_op a \<noteq> None) \<or>
     (location a = Memory \<and>
      (case length_op a of Some l \<Rightarrow> knownToBeZero K l | None \<Rightarrow> False))"
  by (auto simp: knownCovered_def split: option.splits)

text \<open>
  Claim C5 as stated fails: the operation of \<^verbatim>\<open>sstore(0, 1)\<close>, whose slot is a literal,
  is not known to cover itself.
\<close>

theorem C5_counterexample:
  "\<not> knownCovered exampleKnowledge sstoreLiteralOperation sstoreLiteralOperation"
  by (simp add: knownCovered_def sstoreLiteralOperation_def)




text \<open>
  Claim C10. For two storage operations of which at least one has no start,
  \<open>knownUnrelated\<close> returns false. So a read of storage at an unknown slot marks
  every active storage store as used and leaves none active (when each active storage
  store has its storage operation recorded).
\<close>

theorem C10_unknown_slot_may_alias:
  "(location a = Storage \<and> location b = Storage \<and> (start a = None \<or> start b = None) \<longrightarrow>
     knownUnrelated K a b = Some False) \<and>
   (location operation = Storage \<and> effect operation = Read \<and> start operation = None \<and>
    (\<forall>statement \<in> activeStorageStores s.
       \<exists>storeOperation. m_storeOperations s statement = Some storeOperation \<and>
         location storeOperation = Storage) \<longrightarrow>
    applyOperation env operation s =
      Some (s\<lparr>m_usedStores := m_usedStores s \<union> activeStorageStores s,
              activeStorageStores := {}\<rparr>))"
proof (intro conjI impI)
  assume "location a = Storage \<and> location b = Storage \<and> (start a = None \<or> start b = None)"
  then show "knownUnrelated K a b = Some False"
    by (auto simp: knownUnrelated_def split: option.splits)
next
  assume h: "location operation = Storage \<and> effect operation = Read \<and> start operation = None \<and>
   (\<forall>statement \<in> activeStorageStores s.
      \<exists>storeOperation. m_storeOperations s statement = Some storeOperation \<and>
        location storeOperation = Storage)"
  have ku: "\<And>sop. location sop = Storage \<Longrightarrow>
      knownUnrelated (knowledge env) sop operation = Some False"
    using h by (auto simp: knownUnrelated_def split: option.splits)
  have used: "Set.filter (\<lambda>statement.
                  case m_storeOperations s statement of
                    None \<Rightarrow> False
                  | Some storeOperation \<Rightarrow>
                      effect operation = Read \<and>
                      knownUnrelated (knowledge env) storeOperation operation = Some False)
                (activeStorageStores s) = activeStorageStores s"
    using h ku by (auto split: option.splits)
  have noabort: "\<not> (\<exists>statement \<in> activeStorageStores s.
            (case m_storeOperations s statement of
               None \<Rightarrow> True
             | Some storeOperation \<Rightarrow>
                 effect operation = Read \<and>
                 knownUnrelated (knowledge env) storeOperation operation = None))"
    using h ku by (fastforce split: option.splits)
  show "applyOperation env operation s =
     Some (s\<lparr>m_usedStores := m_usedStores s \<union> activeStorageStores s,
             activeStorageStores := {}\<rparr>)"
    unfolding applyOperation_def Let_def using h noabort used by simp
qed

theorem C10_witness:
  "knownUnrelated exampleKnowledge sstoreLiteralOperation sloadLiteralOperation = Some False \<and>
   applyOperation exampleEnv sloadLiteralOperation sstoreActiveState =
     Some (sstoreActiveState\<lparr>m_usedStores := {[0]}, activeStorageStores := {}\<rparr>)"
  using C10_unknown_slot_may_alias [of sstoreLiteralOperation sloadLiteralOperation
      exampleKnowledge sloadLiteralOperation sstoreActiveState exampleEnv]
  by (simp add: sstoreLiteralOperation_def sloadLiteralOperation_def sstoreActiveState_def)

section \<open>Properties of the traversal\<close>

subsection \<open>Expressions only shrink the active sets\<close>

lemma shrinks_refl: "shrinks s s"
  by (auto simp: shrinks_def)

lemma shrinks_trans: "shrinks s s' \<Longrightarrow> shrinks s' s'' \<Longrightarrow> shrinks s s''"
  unfolding shrinks_def by (elim conjE, intro conjI) (simp, simp, blast+)

lemma shrinks_clearActive: "shrinks s (clearActive l s)"
  by (auto simp: shrinks_def clearActive_def Let_def)

lemma shrinks_markActiveAsUsed: "shrinks s (markActiveAsUsed l s)"
  by (auto simp: shrinks_def markActiveAsUsed_def clearActive_def Let_def)

lemma shrinks_applyOperation: "applyOperation env operation s = Some s' \<Longrightarrow> shrinks s s'"
  by (auto simp: applyOperation_def Let_def shrinks_def split: if_splits)

lemma shrinks_applyOperations: "applyOperations env operations s = Some s' \<Longrightarrow> shrinks s s'"
proof (induction operations arbitrary: s)
  case Nil
  then show ?case by (simp add: shrinks_refl)
next
  case (Cons operation operations)
  then show ?case
    by (auto split: Option.bind_splits intro: shrinks_trans dest: shrinks_applyOperation)
qed

lemma applyFunctionCall_eq:
  "applyFunctionCall env functionName arguments s0 = do {
     operations \<leftarrow> operationsFromFunctionCall env functionName arguments;
     s1 \<leftarrow> applyOperations env operations s0;
     sideEffects' \<leftarrow> (case builtin (m_dialect env) functionName of
                        Some f \<Rightarrow> Some (controlFlowSideEffects f)
                      | None \<Rightarrow> m_controlFlowSideEffects env functionName);
     Some (s1\<lparr>m_usedStores := m_usedStores s1 \<union>
                 (if canTerminate sideEffects' then activeStorageStores s1 else {}),
              activeMemoryStores :=
                 (if canContinue sideEffects' then activeMemoryStores s1 else {}),
              activeStorageStores :=
                 (if canTerminate sideEffects' \<or> \<not> canContinue sideEffects' then {}
                  else activeStorageStores s1)\<rparr>)
   }"
  unfolding applyFunctionCall_def
  by (intro Option.bind_cong refl) (simp add: markActiveAsUsed_def clearActive_def Let_def)

lemma shrinks_controlFlow:
  "shrinks s1 (s1\<lparr>m_usedStores := m_usedStores s1 \<union>
                 (if canTerminate cf then activeStorageStores s1 else {}),
              activeMemoryStores :=
                 (if canContinue cf then activeMemoryStores s1 else {}),
              activeStorageStores :=
                 (if canTerminate cf \<or> \<not> canContinue cf then {}
                  else activeStorageStores s1)\<rparr>)"
  by (auto simp: shrinks_def)

lemma shrinks_applyFunctionCall:
  assumes "applyFunctionCall env functionName arguments s = Some s'"
  shows "shrinks s s'"
  using assms unfolding applyFunctionCall_eq
  by (auto simp: bind_eq_Some_conv split del: if_split
      intro: shrinks_trans [OF shrinks_applyOperations shrinks_controlFlow])

lemma shrinks_visit_Expression:
  "visit_Expression env expression s = Some s' \<Longrightarrow> shrinks s s'"
  "walkArguments env arguments s = Some s' \<Longrightarrow> shrinks s s'"
proof (induction env expression s and env arguments s arbitrary: s' and s'
    rule: visit_Expression_walkArguments.induct)
  case (1 env v s)
  then show ?case by (simp add: shrinks_refl)
next
  case (2 env name s)
  then show ?case by (simp add: shrinks_refl)
next
  case (3 env functionName arguments s)
  then show ?case
    by (auto split: Option.bind_splits intro: shrinks_trans dest: shrinks_applyFunctionCall)
next
  case (4 env s)
  then show ?case by (simp add: shrinks_refl)
next
  case (5 env argument arguments s)
  then show ?case
    by (auto split: Option.bind_splits intro: shrinks_trans)
qed

subsection \<open>Stores are recorded at the positions of candidate statements\<close>

lemma stmt_at_Cons:
  "stmt_at statements (i # r) =
     (case vector_at statements i of Some statement \<Rightarrow> sub_at statement r | None \<Rightarrow> None)"
  by (cases r)
    (auto simp: sub_at_def case_at_def loop_at_def
      split: option.splits Statement.splits Case.splits Loop.splits)

lemma vector_at_Cons [simp]:
  "vector_at (x # xs) 0 = Some x"
  "vector_at (x # xs) (Suc k) = vector_at xs k"
  by (auto simp: vector_at_def)

lemma stmt_at_head: "stmt_at (statement # statements) (0 # r) = sub_at statement r"
  by (simp add: stmt_at_Cons)

lemma stmt_at_tail: "stmt_at (statement # statements) (Suc k # r) = stmt_at statements (k # r)"
  by (simp add: stmt_at_Cons)

lemma case_at_head: "case_at (Case v body # cases) (0 # r) = stmt_at body r"
  by (simp add: case_at_def)

lemma case_at_tail: "case_at (c # cases) (Suc k # r) = case_at cases (k # r)"
  by (simp add: case_at_def)

lemma loop_at_simps:
  "loop_at (Loop pre condition post body) (0 # r) = stmt_at pre r"
  "loop_at (Loop pre condition post body) (1 # r) = stmt_at body r"
  "loop_at (Loop pre condition post body) (Suc 0 # r) = stmt_at body r"
  "loop_at (Loop pre condition post body) (2 # r) = stmt_at post r"
  by (simp_all add: loop_at_def)

lemma sub_at_simps:
  "sub_at statement [] = Some statement"
  "sub_at (FunctionDefinition name parameters returns body) (k # r) = stmt_at body (k # r)"
  "sub_at (If_stmt condition body) (k # r) = stmt_at body (k # r)"
  "sub_at (Block body) (k # r) = stmt_at body (k # r)"
  "sub_at (Switch expression cases) (k # r) = case_at cases (k # r)"
  "sub_at (ForLoop loop) (k # r) = loop_at loop (k # r)"
  by (simp_all add: sub_at_def)

lemma insertStore_allStores:
  "insertStore env p f args s = Some s' \<Longrightarrow> m_allStores s' = insert p (m_allStores s)"
  by (auto simp: insertStore_def Let_def split: Option.bind_splits list.splits if_splits)

lemma visitStore_cases:
  assumes "visitStore env p e s = Some s'"
  shows "s' = s \<or>
    (\<exists>f args. e = FunctionCall f args \<and> storeCandidate env f args \<and>
       insertStore env p f args s = Some s')"
proof (cases e)
  case (FunctionCall f args)
  show ?thesis
  proof (cases "toEVMInstruction (m_dialect env) f")
    case None
    with assms FunctionCall show ?thesis by (simp add: visitStore_def)
  next
    case (Some i)
    with assms FunctionCall show ?thesis
      by (auto simp: visitStore_def storeCandidate_def isCandidateForRemoval_def
          split: if_splits option.splits)
  qed
qed (use assms in \<open>simp_all add: visitStore_def\<close>)

lemma new_stores:
  "visit env p st s = Some s' \<Longrightarrow> x \<in> m_allStores s' \<Longrightarrow>
     x \<in> m_allStores s \<or> (\<exists>r. x = p @ r \<and> isStoreAt env (sub_at st r))"
  "walkVector env p i sts s = Some s' \<Longrightarrow> x \<in> m_allStores s' \<Longrightarrow>
     x \<in> m_allStores s \<or> (\<exists>k r. x = p @ (i + k) # r \<and> isStoreAt env (stmt_at sts (k # r)))"
  "walkCases env p j cases pre acc s = Some s' \<Longrightarrow> x \<in> m_allStores s' \<Longrightarrow>
     x \<in> m_allStores s \<or> (\<exists>k r. x = p @ (j + k) # r \<and> isStoreAt env (case_at cases (k # r)))"
  "forIterate env p n loop entry s = Some s' \<Longrightarrow> x \<in> m_allStores s' \<Longrightarrow>
     x \<in> m_allStores s \<or> (\<exists>r. x = p @ r \<and> isStoreAt env (loop_at loop r))"
proof (induction env p st s and env p i sts s and env p j cases pre acc s
    and env p n loop entry s
    arbitrary: s' and s' and s' and s' rule: visit_walkVector_walkCases_forIterate.induct)
  case (1 env p expression s)
  then obtain s1 where s1: "visit_Expression env expression s = Some s1"
    and v: "visitStore env p expression s1 = Some s'"
    by (auto split: Option.bind_splits)
  from shrinks_visit_Expression(1) [OF s1] have a: "m_allStores s1 = m_allStores s"
    by (simp add: shrinks_def)
  from visitStore_cases [OF v] show ?case
  proof
    assume "s' = s1" with a 1 show ?thesis by simp
  next
    assume "\<exists>f args. expression = FunctionCall f args \<and> storeCandidate env f args \<and>
       insertStore env p f args s1 = Some s'"
    then obtain f args where e: "expression = FunctionCall f args"
      and c: "storeCandidate env f args" and i: "insertStore env p f args s1 = Some s'"
      by blast
    from insertStore_allStores [OF i] a 1(2) have "x = p \<or> x \<in> m_allStores s" by auto
    moreover have "isStoreAt env (sub_at (ExpressionStatement expression) [])"
      using e c by (simp add: isStoreAt_def sub_at_simps)
    ultimately show ?thesis by auto
  qed
next
  case (2 env p names v s)
  then show ?case using shrinks_visit_Expression(1) by (auto simp: shrinks_def)
next
  case (3 env p names v s)
  then show ?case using shrinks_visit_Expression(1)
    by (auto simp: shrinks_def split: option.splits)
next
  case (4 env p name parameters returns body s)
  then show ?case
    by (fastforce simp: restoreActive_def sub_at_simps split: Option.bind_splits)
next
  case (5 env p condition body s)
  from 5(2) obtain s1 s2 where s1: "visit_Expression env condition s = Some s1"
    and s2: "walkVector env p 0 body s1 = Some s2" and s': "s' = meetActive s1 s2"
    by (auto split: Option.bind_splits)
  from shrinks_visit_Expression(1) [OF s1] have a: "m_allStores s1 = m_allStores s"
    by (simp add: shrinks_def)
  from 5(3) s' have "x \<in> m_allStores s2" by (simp add: meetActive_def)
  from 5(1) [OF s1 s2 this] a show ?case by (auto simp: sub_at_simps)
next
  case (6 env p expression cases s)
  from 6(2) obtain s1 where s1: "visit_Expression env expression s = Some s1"
    and w: "walkCases env p 0 cases s1
            (if list_ex (\<lambda>c. case c of Case v body \<Rightarrow> v = None) cases then None else Some s1)
            s1 = Some s'"
    by (auto split: Option.bind_splits)
  from shrinks_visit_Expression(1) [OF s1] have a: "m_allStores s1 = m_allStores s"
    by (simp add: shrinks_def)
  from 6(1) [OF s1 w 6(3)] a show ?case by (auto simp: sub_at_simps)
next
  case (7 env p pre condition post body s)
  let ?loop = "Loop pre condition post body"
  from 7(3) obtain s0 where s0: "walkVector env (p @ [0]) 0 pre s = Some s0"
    and w: "forIterate env p (Suc (card (activeMemoryStores s0) + card (activeStorageStores s0)))
              ?loop s0 s0 = Some s'"
    by (auto split: Option.bind_splits)
  from 7(2) [OF s0 w 7(4)] show ?case
  proof
    assume "x \<in> m_allStores s0"
    from 7(1) [OF s0 this] show ?thesis
    proof
      assume "\<exists>k r. x = (p @ [0]) @ (0 + k) # r \<and> isStoreAt env (stmt_at pre (k # r))"
      then obtain k r where "x = p @ (0 # k # r)"
        "isStoreAt env (sub_at (ForLoop ?loop) (0 # k # r))"
        by (auto simp: sub_at_simps loop_at_simps)
      then show ?thesis by blast
    qed simp
  next
    assume "\<exists>r. x = p @ r \<and> isStoreAt env (loop_at ?loop r)"
    then obtain r where r: "x = p @ r" "isStoreAt env (loop_at ?loop r)" by blast
    then have "r \<noteq> []" by (auto simp: loop_at_def isStoreAt_def)
    with r have "isStoreAt env (sub_at (ForLoop ?loop) r)" by (simp add: sub_at_def)
    with r show ?thesis by blast
  qed
next
  case (8 env p s)
  then show ?case by simp
next
  case (9 env p s)
  then show ?case by simp
next
  case (10 env p s)
  then show ?case using shrinks_markActiveAsUsed [of s None] by (auto simp: shrinks_def)
next
  case (11 env p statements s)
  then show ?case by (fastforce simp: sub_at_simps)
next
  case (12 env p i s)
  then show ?case by simp
next
  case (13 env p i statement statements s)
  from 13(3) obtain s1 where s1: "visit env (p @ [i]) statement s = Some s1"
    and w: "walkVector env p (Suc i) statements s1 = Some s'"
    by (auto split: Option.bind_splits)
  from 13(2) [OF s1 w 13(4)] show ?case
  proof
    assume "x \<in> m_allStores s1"
    from 13(1) [OF s1 this] show ?thesis
    proof
      assume "\<exists>r. x = (p @ [i]) @ r \<and> isStoreAt env (sub_at statement r)"
      then obtain r where "x = p @ (i + 0) # r"
        "isStoreAt env (stmt_at (statement # statements) (0 # r))"
        by (auto simp: stmt_at_head)
      then show ?thesis by blast
    qed simp
  next
    assume "\<exists>k r. x = p @ (Suc i + k) # r \<and> isStoreAt env (stmt_at statements (k # r))"
    then obtain k r where "x = p @ (i + Suc k) # r"
      "isStoreAt env (stmt_at (statement # statements) (Suc k # r))"
      by (auto simp: stmt_at_tail)
    then show ?thesis by blast
  qed
next
  case (14 env p j pre acc s)
  then show ?case by (auto simp: restoreActive_def split: option.splits)
next
  case (15 env p j v body cases pre acc s)
  from 15(3) obtain s1 where s1: "walkVector env (p @ [j]) 0 body (restoreActive pre s) = Some s1"
    and w: "walkCases env p (Suc j) cases pre
            (Some (case acc of None \<Rightarrow> s1 | Some joined \<Rightarrow> meetActive joined s1)) s1 = Some s'"
    by (auto split: Option.bind_splits)
  from 15(2) [OF s1 w 15(4)] show ?case
  proof
    assume "x \<in> m_allStores s1"
    from 15(1) [OF s1 this] show ?thesis
    proof
      assume "x \<in> m_allStores (restoreActive pre s)"
      then show ?thesis by (simp add: restoreActive_def)
    next
      assume "\<exists>k r. x = (p @ [j]) @ (0 + k) # r \<and> isStoreAt env (stmt_at body (k # r))"
      then obtain k r where "x = p @ (j + 0) # k # r"
        "isStoreAt env (case_at (Case v body # cases) (0 # k # r))"
        by (auto simp: case_at_head)
      then show ?thesis by blast
    qed
  next
    assume "\<exists>k r. x = p @ (Suc j + k) # r \<and> isStoreAt env (case_at cases (k # r))"
    then obtain k r where "x = p @ (j + Suc k) # r"
      "isStoreAt env (case_at (Case v body # cases) (Suc k # r))"
      by (auto simp: case_at_tail)
    then show ?thesis by blast
  qed
next
  case (16 env p loop entry s)
  then show ?case by simp
next
  case (17 env p n pre condition post body entry s)
  let ?loop = "Loop pre condition post body"
  from 17(4) obtain s1 s2 s3 where s1: "walkVector env (p @ [1]) 0 body (restoreActive entry s) = Some s1"
    and s2: "walkVector env (p @ [2]) 0 post s1 = Some s2"
    and s3: "visit_Expression env condition s2 = Some s3"
    by (auto split: Option.bind_splits)
  define next' where "next' = meetActive entry (markIntroducedAsUsed entry s3)"
  from shrinks_visit_Expression(1) [OF s3] have a3: "m_allStores next' = m_allStores s2"
    by (simp add: shrinks_def next'_def meetActive_def markIntroducedAsUsed_def)
  have inner: "x \<in> m_allStores s \<or> (\<exists>r. x = p @ r \<and> isStoreAt env (loop_at ?loop r))"
    if "x \<in> m_allStores next'"
  proof -
    from that a3 have "x \<in> m_allStores s2" by simp
    from 17(2) [OF s1 s2 this] show ?thesis
    proof
      assume "x \<in> m_allStores s1"
      from 17(1) [OF s1 this] show ?thesis
      proof
        assume "x \<in> m_allStores (restoreActive entry s)"
        then show ?thesis by (simp add: restoreActive_def)
      next
        assume "\<exists>k r. x = (p @ [1]) @ (0 + k) # r \<and> isStoreAt env (stmt_at body (k # r))"
        then obtain k r where "x = p @ (1 # k # r)" "isStoreAt env (loop_at ?loop (1 # k # r))"
          by (auto simp: loop_at_simps)
        then show ?thesis by blast
      qed
    next
      assume "\<exists>k r. x = (p @ [2]) @ (0 + k) # r \<and> isStoreAt env (stmt_at post (k # r))"
      then obtain k r where "x = p @ (2 # k # r)" "isStoreAt env (loop_at ?loop (2 # k # r))"
        by (auto simp: loop_at_simps)
      then show ?thesis by blast
    qed
  qed
  show ?case
  proof (cases "activeMemoryStores next' = activeMemoryStores entry \<and>
      activeStorageStores next' = activeStorageStores entry")
    case True
    with 17(4) s1 s2 s3 have "s' = next'" by (simp add: next'_def Let_def)
    with 17(5) inner show ?thesis by simp
  next
    case False
    with 17(4) s1 s2 s3 have w: "forIterate env p n ?loop next' next' = Some s'"
      by (auto simp: next'_def Let_def split: if_splits)
    from 17(3) [OF s1 s2 s3 next'_def False w 17(5)] inner show ?thesis by blast
  qed
qed

subsection \<open>The invariant is preserved\<close>

lemma grows_refl: "grows s s"
  by (simp add: grows_def)

lemma grows_trans: "grows s s' \<Longrightarrow> grows s' s'' \<Longrightarrow> grows s s''"
  unfolding grows_def by blast

lemma shrinks_grows: "shrinks s s' \<Longrightarrow> grows s s'"
  by (simp add: shrinks_def grows_def)

lemma shrinks_invariant: "shrinks s s' \<Longrightarrow> invariant s \<Longrightarrow> invariant s'"
  unfolding shrinks_def invariant_def by (elim conjE, intro conjI) blast+

lemma shrinks_agrees: "shrinks s s' \<Longrightarrow> agrees env ast s \<Longrightarrow> agrees env ast s'"
  unfolding shrinks_def agrees_def by blast

lemma invariant_activeWithin: "invariant s \<longleftrightarrow> activeWithin s s \<and> m_usedStores s \<subseteq> m_allStores s"
  by (auto simp: invariant_def activeWithin_def)

lemma activeWithin_grows: "activeWithin a s \<Longrightarrow> grows s s' \<Longrightarrow> activeWithin a s'"
  unfolding activeWithin_def grows_def by blast

lemma invariant_restoreActive:
  "activeWithin a s \<Longrightarrow> m_usedStores s \<subseteq> m_allStores s \<Longrightarrow> invariant (restoreActive a s)"
  by (simp add: invariant_def activeWithin_def restoreActive_def)

lemma invariant_meetActive: "invariant s' \<Longrightarrow> invariant (meetActive s s')"
  unfolding invariant_def meetActive_def by (simp, blast)

lemma activeWithin_meetActive: "invariant s' \<Longrightarrow> activeWithin (meetActive s s') s'"
  unfolding invariant_def activeWithin_def meetActive_def by (simp, blast)

lemma agrees_restoreActive [simp]: "agrees env ast (restoreActive a s) \<longleftrightarrow> agrees env ast a"
  by (simp add: agrees_def restoreActive_def)

lemma agrees_meetActive: "agrees env ast s' \<Longrightarrow> agrees env ast (meetActive s s')"
  by (simp add: agrees_def meetActive_def)

lemma grows_restoreActive [simp]: "grows s (restoreActive a s') \<longleftrightarrow> grows s s'"
  "grows (restoreActive a s) s' \<longleftrightarrow> grows s s'"
  by (simp_all add: grows_def restoreActive_def)

lemma grows_meetActive [simp]: "grows s (meetActive a s') \<longleftrightarrow> grows s s'"
  by (simp add: grows_def meetActive_def)

lemma markIntroducedAsUsed_invariant:
  "invariant s' \<Longrightarrow> invariant (markIntroducedAsUsed s s')"
  unfolding invariant_def markIntroducedAsUsed_def by (simp, blast)

lemma agrees_markIntroducedAsUsed [simp]:
  "agrees env ast (markIntroducedAsUsed s s') \<longleftrightarrow> agrees env ast s'"
  by (simp add: agrees_def markIntroducedAsUsed_def)

lemma grows_markIntroducedAsUsed: "grows s' (markIntroducedAsUsed s s')"
  by (auto simp: grows_def markIntroducedAsUsed_def)

lemma insertStore_invariant:
  assumes "insertStore env p f args s = Some s'" "invariant s" "agrees env ast s"
    and "stmt_at ast p = Some (ExpressionStatement (FunctionCall f args))"
  shows "invariant s' \<and> agrees env ast s' \<and> grows s s'"
proof -
  from assms(1) obtain operation where o: "operationsFromFunctionCall env f args = Some [operation]"
    and s': "s' = (if location operation = Storage
        then s\<lparr>m_allStores := insert p (m_allStores s),
               activeStorageStores := insert p (activeStorageStores s),
               m_storeOperations := (m_storeOperations s)(p \<mapsto> operation)\<rparr>
        else s\<lparr>m_allStores := insert p (m_allStores s),
               activeMemoryStores := insert p (activeMemoryStores s),
               m_storeOperations := (m_storeOperations s)(p \<mapsto> operation)\<rparr>)"
    unfolding insertStore_def
    by (auto simp: Let_def split: Option.bind_splits list.splits if_splits)
  from o assms(4) have l: "storeLocation env (stmt_at ast p) = Some (location operation)"
    by (simp add: storeLocation_def)
  show ?thesis
  proof (cases "location operation = Storage")
    case True
    with l assms(3) have "p \<notin> activeMemoryStores s" by (auto simp: agrees_def)
    with True l assms(2,3) show ?thesis
      unfolding s' invariant_def agrees_def grows_def by auto
  next
    case False
    then have m: "location operation = Memory" by (cases "location operation") simp_all
    with l assms(3) have "p \<notin> activeStorageStores s" by (auto simp: agrees_def)
    with m l assms(2,3) show ?thesis
      unfolding s' invariant_def agrees_def grows_def by auto
  qed
qed

lemma visitStore_invariant:
  assumes "visitStore env p e s = Some s'" "invariant s" "agrees env ast s"
    and "stmt_at ast p = Some (ExpressionStatement e)"
  shows "invariant s' \<and> agrees env ast s' \<and> grows s s'"
  using visitStore_cases [OF assms(1)] assms(2,3,4) insertStore_invariant
  by (auto simp: grows_refl)

lemma visit_Expression_invariant:
  "visit_Expression env expression s = Some s' \<Longrightarrow> invariant s \<Longrightarrow> invariant s' \<and> grows s s'"
  using shrinks_visit_Expression(1) shrinks_invariant shrinks_grows by blast

lemma invariant_preserved:
  "visit env p st s = Some s' \<Longrightarrow> invariant s \<Longrightarrow> agrees env ast s \<Longrightarrow>
     (\<forall>r. stmt_at ast (p @ r) = sub_at st r) \<Longrightarrow>
     invariant s' \<and> agrees env ast s' \<and> grows s s'"
  "walkVector env p i sts s = Some s' \<Longrightarrow> invariant s \<Longrightarrow> agrees env ast s \<Longrightarrow>
     (\<forall>k r. stmt_at ast (p @ (i + k) # r) = stmt_at sts (k # r)) \<Longrightarrow>
     invariant s' \<and> agrees env ast s' \<and> grows s s'"
  "walkCases env p j cases pre acc s = Some s' \<Longrightarrow> invariant s \<Longrightarrow> agrees env ast s \<Longrightarrow>
     (\<forall>k r. stmt_at ast (p @ (j + k) # r) = case_at cases (k # r)) \<Longrightarrow>
     activeWithin pre s \<Longrightarrow> agrees env ast pre \<Longrightarrow>
     (\<forall>joined. acc = Some joined \<longrightarrow> activeWithin joined s \<and> agrees env ast joined) \<Longrightarrow>
     invariant s' \<and> agrees env ast s' \<and> grows s s'"
  "forIterate env p n loop entry s = Some s' \<Longrightarrow> invariant s \<Longrightarrow> agrees env ast s \<Longrightarrow>
     (\<forall>k r. stmt_at ast (p @ k # r) = loop_at loop (k # r)) \<Longrightarrow>
     activeWithin entry s \<Longrightarrow> agrees env ast entry \<Longrightarrow>
     invariant s' \<and> agrees env ast s' \<and> grows s s'"
proof (induction env p st s and env p i sts s and env p j cases pre acc s
    and env p n loop entry s
    arbitrary: s' and s' and s' and s' rule: visit_walkVector_walkCases_forIterate.induct)
  case (1 env p expression s)
  from "1.prems"(1) obtain s1 where s1: "visit_Expression env expression s = Some s1"
    and v: "visitStore env p expression s1 = Some s'"
    by (auto split: Option.bind_splits)
  note sh = shrinks_visit_Expression(1) [OF s1]
  from "1.prems"(4) [rule_format, of "[]"]
  have at: "stmt_at ast p = Some (ExpressionStatement expression)" by (simp add: sub_at_def)
  from visitStore_invariant [OF v shrinks_invariant [OF sh "1.prems"(2)]
      shrinks_agrees [OF sh "1.prems"(3)] at] shrinks_grows [OF sh]
  show ?case by (auto intro: grows_trans)
next
  case (2 env p names v s)
  then show ?case
    using visit_Expression_invariant shrinks_visit_Expression(1) shrinks_agrees by simp blast
next
  case (3 env p names v s)
  show ?case
  proof (cases v)
    case None
    with 3 show ?thesis by (simp add: grows_refl)
  next
    case (Some expression)
    with "3.prems"(1) have e: "visit_Expression env expression s = Some s'" by simp
    from visit_Expression_invariant [OF e "3.prems"(2)]
      shrinks_agrees [OF shrinks_visit_Expression(1) [OF e] "3.prems"(3)]
    show ?thesis by simp
  qed
next
  case (4 env p name parameters returns body s)
  let ?s0 = "s\<lparr>activeMemoryStores := {}, activeStorageStores := {}, m_storeOperations := Map.empty\<rparr>"
  from "4.prems"(1) obtain s1 where s1: "walkVector env p 0 body ?s0 = Some s1"
    and s': "s' = restoreActive s (s1\<lparr>m_storeOperations := m_storeOperations s\<rparr>)"
    by (auto split: Option.bind_splits)
  have i0: "invariant ?s0" using "4.prems"(2) by (simp add: invariant_def)
  have a0: "agrees env ast ?s0" by (simp add: agrees_def)
  have l0: "\<forall>k r. stmt_at ast (p @ (0 + k) # r) = stmt_at body (k # r)"
    using "4.prems"(4) by (simp add: sub_at_simps)
  from "4.IH" [OF s1 i0 a0 l0] have i1: "invariant s1" and g: "grows ?s0 s1" by auto
  from g have g': "grows s s1" by (simp add: grows_def)
  from "4.prems"(2) have "activeWithin s s" by (simp add: invariant_activeWithin)
  then have "activeWithin s s1" using g' by (rule activeWithin_grows)
  with i1 have "invariant s'"
    unfolding s' by (simp add: invariant_def activeWithin_def restoreActive_def)
  moreover from "4.prems"(3) have "agrees env ast s'" unfolding s' by simp
  moreover from g' have "grows s s'" unfolding s' by (simp add: grows_def restoreActive_def)
  ultimately show ?case by simp
next
  case (5 env p condition body s)
  from "5.prems"(1) obtain s1 s2 where s1: "visit_Expression env condition s = Some s1"
    and s2: "walkVector env p 0 body s1 = Some s2" and s': "s' = meetActive s1 s2"
    by (auto split: Option.bind_splits)
  note sh = shrinks_visit_Expression(1) [OF s1]
  have l0: "\<forall>k r. stmt_at ast (p @ (0 + k) # r) = stmt_at body (k # r)"
    using "5.prems"(4) by (simp add: sub_at_simps)
  from "5.IH" [OF s1 s2 shrinks_invariant [OF sh "5.prems"(2)]
      shrinks_agrees [OF sh "5.prems"(3)] l0]
  have "invariant s2" "agrees env ast s2" "grows s1 s2" by auto
  with shrinks_grows [OF sh] show ?case
    unfolding s' by (auto intro: invariant_meetActive agrees_meetActive grows_trans)
next
  case (6 env p expression cases s)
  from "6.prems"(1) obtain s1 where s1: "visit_Expression env expression s = Some s1"
    and w: "walkCases env p 0 cases s1
            (if list_ex (\<lambda>c. case c of Case v body \<Rightarrow> v = None) cases then None else Some s1)
            s1 = Some s'"
    by (auto split: Option.bind_splits)
  note sh = shrinks_visit_Expression(1) [OF s1]
  have i1: "invariant s1" by (rule shrinks_invariant [OF sh "6.prems"(2)])
  have a1: "agrees env ast s1" by (rule shrinks_agrees [OF sh "6.prems"(3)])
  have l0: "\<forall>k r. stmt_at ast (p @ (0 + k) # r) = case_at cases (k # r)"
    using "6.prems"(4) by (simp add: sub_at_simps)
  have aw: "activeWithin s1 s1" using i1 by (simp add: invariant_activeWithin)
  from "6.IH" [OF s1 w i1 a1 l0 aw a1] aw a1
  have "invariant s'" "agrees env ast s'" "grows s1 s'" by auto
  with shrinks_grows [OF sh] show ?case by (auto intro: grows_trans)
next
  case (7 env p pre condition post body s)
  let ?loop = "Loop pre condition post body"
  from "7.prems"(1) obtain s0 where s0: "walkVector env (p @ [0]) 0 pre s = Some s0"
    and w: "forIterate env p (Suc (card (activeMemoryStores s0) + card (activeStorageStores s0)))
              ?loop s0 s0 = Some s'"
    by (auto split: Option.bind_splits)
  have l0: "\<forall>k r. stmt_at ast ((p @ [0]) @ (0 + k) # r) = stmt_at pre (k # r)"
    using "7.prems"(4) [rule_format, of "0 # _ # _"] by (simp add: sub_at_simps loop_at_simps)
  from "7.IH"(1) [OF s0 "7.prems"(2) "7.prems"(3) l0]
  have i0: "invariant s0" and a0: "agrees env ast s0" and g0: "grows s s0" by auto
  have l: "\<forall>k r. stmt_at ast (p @ k # r) = loop_at ?loop (k # r)"
    using "7.prems"(4) by (simp add: sub_at_simps)
  have aw: "activeWithin s0 s0" using i0 by (simp add: invariant_activeWithin)
  from "7.IH"(2) [OF s0 w i0 a0 l aw a0] g0 show ?case by (auto intro: grows_trans)
next
  case (8 env p s)
  then show ?case by (simp add: grows_refl)
next
  case (9 env p s)
  then show ?case by (simp add: grows_refl)
next
  case (10 env p s)
  then show ?case
    using shrinks_invariant [OF shrinks_markActiveAsUsed [of s None]]
      shrinks_agrees [OF shrinks_markActiveAsUsed [of s None]]
      shrinks_grows [OF shrinks_markActiveAsUsed [of s None]] by auto
next
  case (11 env p statements s)
  have "\<forall>k r. stmt_at ast (p @ (0 + k) # r) = stmt_at statements (k # r)"
    using "11.prems"(4) by (simp add: sub_at_simps)
  with 11 show ?case by simp
next
  case (12 env p i s)
  then show ?case by (simp add: grows_refl)
next
  case (13 env p i statement statements s)
  from "13.prems"(1) obtain s1 where s1: "visit env (p @ [i]) statement s = Some s1"
    and w: "walkVector env p (Suc i) statements s1 = Some s'"
    by (auto split: Option.bind_splits)
  have l1: "\<forall>r. stmt_at ast ((p @ [i]) @ r) = sub_at statement r"
    using "13.prems"(4) [rule_format, of 0] by (simp add: stmt_at_head)
  from "13.IH"(1) [OF s1 "13.prems"(2) "13.prems"(3) l1]
  have i1: "invariant s1" and a1: "agrees env ast s1" and g1: "grows s s1" by auto
  have l2: "\<forall>k r. stmt_at ast (p @ (Suc i + k) # r) = stmt_at statements (k # r)"
    using "13.prems"(4) [rule_format, of "Suc _"] by (simp add: stmt_at_tail)
  from "13.IH"(2) [OF s1 w i1 a1 l2] g1 show ?case by (auto intro: grows_trans)
next
  case (14 env p j pre acc s)
  show ?case
  proof (cases acc)
    case None
    with 14 show ?thesis by (simp add: grows_refl)
  next
    case (Some joined)
    with "14.prems"(7) have j: "activeWithin joined s" "agrees env ast joined" by simp_all
    from "14.prems"(2) have "m_usedStores s \<subseteq> m_allStores s" by (simp add: invariant_def)
    with j(1) have "invariant (restoreActive joined s)" by (rule invariant_restoreActive)
    with "14.prems"(1) Some j(2) show ?thesis by (auto simp: grows_refl)
  qed
next
  case (15 env p j v body cases pre acc s)
  from "15.prems"(1) obtain s1
    where s1: "walkVector env (p @ [j]) 0 body (restoreActive pre s) = Some s1"
    and w: "walkCases env p (Suc j) cases pre
            (Some (case acc of None \<Rightarrow> s1 | Some joined \<Rightarrow> meetActive joined s1)) s1 = Some s'"
    by (auto split: Option.bind_splits)
  from "15.prems"(2) have "m_usedStores s \<subseteq> m_allStores s" by (simp add: invariant_def)
  with "15.prems"(5) have i0: "invariant (restoreActive pre s)" by (rule invariant_restoreActive)
  have a0: "agrees env ast (restoreActive pre s)" using "15.prems"(6) by simp
  have l0: "\<forall>k r. stmt_at ast ((p @ [j]) @ (0 + k) # r) = stmt_at body (k # r)"
    using "15.prems"(4) [rule_format, of 0] by (simp add: case_at_head)
  from "15.IH"(1) [OF s1 i0 a0 l0]
  have i1: "invariant s1" and a1: "agrees env ast s1" and g1: "grows s s1" by auto
  have l2: "\<forall>k r. stmt_at ast (p @ (Suc j + k) # r) = case_at cases (k # r)"
    using "15.prems"(4) [rule_format, of "Suc _"] by (simp add: case_at_tail)
  have aw: "activeWithin pre s1" by (rule activeWithin_grows [OF "15.prems"(5) g1])
  have acc': "\<forall>joined. Some (case acc of None \<Rightarrow> s1 | Some joined \<Rightarrow> meetActive joined s1) = Some joined
      \<longrightarrow> activeWithin joined s1 \<and> agrees env ast joined"
    using i1 a1
    by (auto simp: invariant_activeWithin activeWithin_meetActive agrees_meetActive
        split: option.splits)
  from "15.IH"(2) [OF s1 w i1 a1 l2 aw "15.prems"(6) acc'] g1
  show ?case by (auto intro: grows_trans)
next
  case (16 env p loop entry s)
  then show ?case by simp
next
  case (17 env p n pre condition post body entry s)
  let ?loop = "Loop pre condition post body"
  from "17.prems"(1) obtain s1 s2 s3
    where s1: "walkVector env (p @ [1]) 0 body (restoreActive entry s) = Some s1"
    and s2: "walkVector env (p @ [2]) 0 post s1 = Some s2"
    and s3: "visit_Expression env condition s2 = Some s3"
    by (auto split: Option.bind_splits)
  define next' where "next' = meetActive entry (markIntroducedAsUsed entry s3)"
  from "17.prems"(2) have "m_usedStores s \<subseteq> m_allStores s" by (simp add: invariant_def)
  with "17.prems"(5) have i0: "invariant (restoreActive entry s)"
    by (rule invariant_restoreActive)
  have a0: "agrees env ast (restoreActive entry s)" using "17.prems"(6) by simp
  have l1: "\<forall>k r. stmt_at ast ((p @ [1]) @ (0 + k) # r) = stmt_at body (k # r)"
    using "17.prems"(4) [rule_format, of 1] by (simp add: loop_at_simps)
  from "17.IH"(1) [OF s1 i0 a0 l1]
  have i1: "invariant s1" and a1: "agrees env ast s1" and g1: "grows s s1" by auto
  have l2: "\<forall>k r. stmt_at ast ((p @ [2]) @ (0 + k) # r) = stmt_at post (k # r)"
    using "17.prems"(4) [rule_format, of 2] by (simp add: loop_at_simps)
  from "17.IH"(2) [OF s1 s2 i1 a1 l2]
  have i2: "invariant s2" and a2: "agrees env ast s2" and g2: "grows s1 s2" by auto
  note sh = shrinks_visit_Expression(1) [OF s3]
  have i3: "invariant s3" by (rule shrinks_invariant [OF sh i2])
  have a3: "agrees env ast s3" by (rule shrinks_agrees [OF sh a2])
  have g3: "grows s s3" using g1 g2 shrinks_grows [OF sh] by (blast intro: grows_trans)
  have inext: "invariant next'"
    unfolding next'_def by (intro invariant_meetActive markIntroducedAsUsed_invariant i3)
  have anext: "agrees env ast next'"
    unfolding next'_def using a3 by (simp add: agrees_meetActive)
  have gnext: "grows s next'"
    unfolding next'_def using g3 grows_markIntroducedAsUsed [of s3 entry]
    by (auto intro: grows_trans)
  show ?case
  proof (cases "activeMemoryStores next' = activeMemoryStores entry \<and>
      activeStorageStores next' = activeStorageStores entry")
    case True
    with "17.prems"(1) s1 s2 s3 have "s' = next'" by (simp add: next'_def Let_def)
    with inext anext gnext show ?thesis by simp
  next
    case False
    with "17.prems"(1) s1 s2 s3 have w: "forIterate env p n ?loop next' next' = Some s'"
      by (auto simp: next'_def Let_def split: if_splits)
    have aw: "activeWithin next' next'" using inext by (simp add: invariant_activeWithin)
    from "17.IH"(3) [OF s1 s2 s3 next'_def False w inext anext "17.prems"(4) aw anext] gnext
    show ?thesis by (auto intro: grows_trans)
  qed
qed

subsection \<open>The recorded operations\<close>

lemma those_map_Some:
  "those (map f xs) = Some ys \<Longrightarrow> y \<in> set ys \<Longrightarrow> \<exists>x \<in> set xs. f x = Some y"
proof (induction xs arbitrary: ys)
  case Nil
  then show ?case by simp
next
  case (Cons x xs)
  then show ?case by (auto split: option.splits)
qed

lemma operationFromSemantic_storage:
  assumes "operationFromSemantic env arguments sop = Some operation"
    and "location operation = Storage" "start operation \<noteq> None"
  shows "sem_location sop = Storage \<and> startParameter sop \<noteq> None \<and>
    (lengthConstant sop = Some 1 \<longrightarrow> length_op operation = Some one)"
  using assms
  by (auto simp: operationFromSemantic_def split: if_splits Option.bind_splits option.splits)

lemma produced_storage_length:
  assumes table: "\<forall>i. \<forall>sop \<in> set (readWriteOperations (semanticInformation env) i).
      sem_location sop = Storage \<and> startParameter sop \<noteq> None \<longrightarrow> lengthConstant sop = Some 1"
    and p: "produced env operation"
    and st: "location operation = Storage" "start operation \<noteq> None"
  shows "length_op operation = Some one"
proof -
  from p obtain f args ops where o: "operationsFromFunctionCall env f args = Some ops"
    and m: "operation \<in> set ops"
    unfolding produced_def by blast
  show ?thesis
  proof (cases "toEVMInstruction (m_dialect env) f")
    case None
    with o m st show ?thesis
      by (auto simp: operationsFromFunctionCall_def split: Option.bind_splits if_splits)
  next
    case (Some i)
    with o have "those (map (operationFromSemantic env args)
        (readWriteOperations (semanticInformation env) i)) = Some ops"
      by (auto simp: operationsFromFunctionCall_def split: Option.bind_splits)
    from those_map_Some [OF this m] obtain sop
      where sop: "sop \<in> set (readWriteOperations (semanticInformation env) i)"
        and f: "operationFromSemantic env args sop = Some operation"
      by blast
    from operationFromSemantic_storage [OF f st] table sop show ?thesis by blast
  qed
qed

lemma insertStore_storeOperations:
  assumes "insertStore env p f args s = Some s'" "m_storeOperations s' x = Some operation"
  shows "m_storeOperations s x = Some operation \<or> produced env operation"
  using assms unfolding insertStore_def produced_def
  by (fastforce simp: Let_def split: Option.bind_splits list.splits if_splits)

lemma storeOperations_produced:
  "visit env p st s = Some s' \<Longrightarrow> m_storeOperations s' x = Some operation \<Longrightarrow>
     m_storeOperations s x = Some operation \<or> produced env operation"
  "walkVector env p i sts s = Some s' \<Longrightarrow> m_storeOperations s' x = Some operation \<Longrightarrow>
     m_storeOperations s x = Some operation \<or> produced env operation"
  "walkCases env p j cases pre acc s = Some s' \<Longrightarrow> m_storeOperations s' x = Some operation \<Longrightarrow>
     m_storeOperations s x = Some operation \<or> produced env operation"
  "forIterate env p n loop entry s = Some s' \<Longrightarrow> m_storeOperations s' x = Some operation \<Longrightarrow>
     m_storeOperations s x = Some operation \<or> produced env operation"
proof (induction env p st s and env p i sts s and env p j cases pre acc s
    and env p n loop entry s
    arbitrary: s' and s' and s' and s' rule: visit_walkVector_walkCases_forIterate.induct)
  case (1 env p expression s)
  then obtain s1 where s1: "visit_Expression env expression s = Some s1"
    and v: "visitStore env p expression s1 = Some s'"
    by (auto split: Option.bind_splits)
  from shrinks_visit_Expression(1) [OF s1] have a: "m_storeOperations s1 = m_storeOperations s"
    by (simp add: shrinks_def)
  from visitStore_cases [OF v] 1(2) a insertStore_storeOperations show ?case by fastforce
next
  case (2 env p names v s)
  then show ?case using shrinks_visit_Expression(1) by (fastforce simp: shrinks_def)
next
  case (3 env p names v s)
  then show ?case using shrinks_visit_Expression(1)
    by (fastforce simp: shrinks_def split: option.splits)
next
  case (4 env p name parameters returns body s)
  then show ?case
    by (auto simp: restoreActive_def split: Option.bind_splits)
next
  case (5 env p condition body s)
  from 5(2) obtain s1 s2 where s1: "visit_Expression env condition s = Some s1"
    and s2: "walkVector env p 0 body s1 = Some s2" and s': "s' = meetActive s1 s2"
    by (auto split: Option.bind_splits)
  from shrinks_visit_Expression(1) [OF s1] have a: "m_storeOperations s1 = m_storeOperations s"
    by (simp add: shrinks_def)
  from 5(3) s' have "m_storeOperations s2 x = Some operation" by (simp add: meetActive_def)
  from 5(1) [OF s1 s2 this] a show ?case by simp
next
  case (6 env p expression cases s)
  from 6(2) obtain s1 where s1: "visit_Expression env expression s = Some s1"
    and w: "walkCases env p 0 cases s1
            (if list_ex (\<lambda>c. case c of Case v body \<Rightarrow> v = None) cases then None else Some s1)
            s1 = Some s'"
    by (auto split: Option.bind_splits)
  from shrinks_visit_Expression(1) [OF s1] have a: "m_storeOperations s1 = m_storeOperations s"
    by (simp add: shrinks_def)
  from 6(1) [OF s1 w 6(3)] a show ?case by simp
next
  case (7 env p pre condition post body s)
  from 7(3) obtain s0 where s0: "walkVector env (p @ [0]) 0 pre s = Some s0"
    and w: "forIterate env p (Suc (card (activeMemoryStores s0) + card (activeStorageStores s0)))
              (Loop pre condition post body) s0 s0 = Some s'"
    by (auto split: Option.bind_splits)
  from 7(2) [OF s0 w 7(4)] 7(1) [OF s0] show ?case by blast
next
  case (8 env p s)
  then show ?case by simp
next
  case (9 env p s)
  then show ?case by simp
next
  case (10 env p s)
  then show ?case using shrinks_markActiveAsUsed [of s None] by (auto simp: shrinks_def)
next
  case (11 env p statements s)
  then show ?case by simp
next
  case (12 env p i s)
  then show ?case by simp
next
  case (13 env p i statement statements s)
  from 13(3) obtain s1 where s1: "visit env (p @ [i]) statement s = Some s1"
    and w: "walkVector env p (Suc i) statements s1 = Some s'"
    by (auto split: Option.bind_splits)
  from 13(2) [OF s1 w 13(4)] 13(1) [OF s1] show ?case by blast
next
  case (14 env p j pre acc s)
  then show ?case by (auto simp: restoreActive_def split: option.splits)
next
  case (15 env p j v body cases pre acc s)
  from 15(3) obtain s1 where s1: "walkVector env (p @ [j]) 0 body (restoreActive pre s) = Some s1"
    and w: "walkCases env p (Suc j) cases pre
            (Some (case acc of None \<Rightarrow> s1 | Some joined \<Rightarrow> meetActive joined s1)) s1 = Some s'"
    by (auto split: Option.bind_splits)
  from 15(2) [OF s1 w 15(4)] 15(1) [OF s1] show ?case
    by (auto simp: restoreActive_def)
next
  case (16 env p loop entry s)
  then show ?case by simp
next
  case (17 env p n pre condition post body entry s)
  let ?loop = "Loop pre condition post body"
  from 17(4) obtain s1 s2 s3
    where s1: "walkVector env (p @ [1]) 0 body (restoreActive entry s) = Some s1"
    and s2: "walkVector env (p @ [2]) 0 post s1 = Some s2"
    and s3: "visit_Expression env condition s2 = Some s3"
    by (auto split: Option.bind_splits)
  define next' where "next' = meetActive entry (markIntroducedAsUsed entry s3)"
  from shrinks_visit_Expression(1) [OF s3]
  have a3: "m_storeOperations next' = m_storeOperations s2"
    by (simp add: shrinks_def next'_def meetActive_def markIntroducedAsUsed_def)
  have inner: "m_storeOperations s x = Some operation \<or> produced env operation"
    if "m_storeOperations next' x = Some operation"
  proof -
    from that a3 have "m_storeOperations s2 x = Some operation" by simp
    from 17(2) [OF s1 s2 this] 17(1) [OF s1] show ?thesis
      by (auto simp: restoreActive_def)
  qed
  show ?case
  proof (cases "activeMemoryStores next' = activeMemoryStores entry \<and>
      activeStorageStores next' = activeStorageStores entry")
    case True
    with 17(4) s1 s2 s3 have "s' = next'" by (simp add: next'_def Let_def)
    with 17(5) inner show ?thesis by simp
  next
    case False
    with 17(4) s1 s2 s3 have w: "forIterate env p n ?loop next' next' = Some s'"
      by (auto simp: next'_def Let_def split: if_splits)
    from 17(3) [OF s1 s2 s3 next'_def False w 17(5)] inner show ?thesis by blast
  qed
qed

subsection \<open>The walk of the root block\<close>

lemma root_stores:
  assumes "walkVector env [] 0 ast emptyState = Some s" "x \<in> m_allStores s"
  shows "isStoreAt env (stmt_at ast x)"
  using new_stores(2) [OF assms] by (auto simp: emptyState_def)

lemma root_invariant:
  assumes "walkVector env [] 0 ast emptyState = Some s"
  shows "invariant s"
  using invariant_preserved(2) [OF assms, of ast]
  by (simp add: invariant_def agrees_def emptyState_def)

lemma run_removes:
  assumes "walkVector (newUnusedStoreEliminator context ast) [] 0 ast emptyState = Some s"
  shows "\<exists>R. run context ast = Some R \<and> R \<subseteq> m_allStores s"
  using assms
  by (auto simp: run_def Let_def finalize_def markActiveAsUsed_def clearActive_def)

lemma isStoreAt_cases:
  assumes "isStoreAt env statement"
  obtains f args i where "statement = Some (ExpressionStatement (FunctionCall f args))"
    "toEVMInstruction (m_dialect env) f = Some i"
    "isStorageWrite i \<or> (\<not> m_ignoreMemory env \<and> isMemoryWrite i)"
    "i = RETURNDATACOPY \<longrightarrow> allowReturndatacopyToBeRemoved env args = Some True"
  using assms
  by (auto simp: isStoreAt_def storeCandidate_def
      split: option.splits Statement.splits Expression.splits)

lemma allowReturndatacopyToBeRemoved_shape:
  assumes "allowReturndatacopyToBeRemoved env args = Some True"
  shows "\<exists>startOffset length' lengthName lengthArguments.
     vector_at args 1 = Some (Identifier startOffset) \<and>
     vector_at args 2 = Some (Identifier length') \<and>
     m_ssaValues env startOffset \<noteq> None \<and>
     knownToBeZero (knowledge env) startOffset \<and>
     m_ssaValues env length' = Some (FunctionCall lengthName lengthArguments) \<and>
     toEVMInstruction (m_dialect env) lengthName = Some RETURNDATASIZE"
  using assms
  by (auto simp: allowReturndatacopyToBeRemoved_def identifierNameIfSSA_def Let_def
      split: Option.bind_splits option.splits Expression.splits if_splits)

subsection \<open>What the operations of a call do\<close>

text \<open>
  What one operation does to the state, and what a list of operations does: a store is
  taken from the active set of the location of an operation that reads what it may
  alias or that covers it, and it is marked as used when the operation is a read.
\<close>

lemma applyOperation_effect:
  assumes "applyOperation env operation s = Some s'"
  shows "m_usedStores s' = m_usedStores s \<union>
      {x \<in> activeStores (location operation) s. \<exists>storeOperation.
         m_storeOperations s x = Some storeOperation \<and> effect operation = Read \<and>
         knownUnrelated (knowledge env) storeOperation operation = Some False}"
    and "activeStores (location operation) s' =
      {x \<in> activeStores (location operation) s. \<forall>storeOperation.
         m_storeOperations s x = Some storeOperation \<longrightarrow>
           \<not> (effect operation = Read \<and>
              knownUnrelated (knowledge env) storeOperation operation = Some False) \<and>
           \<not> (effect operation = Write \<and>
              knownCovered (knowledge env) storeOperation operation)}"
    and "l \<noteq> location operation \<Longrightarrow> activeStores l s' = activeStores l s"
proof -
  let ?active = "activeStores (location operation) s"
  let ?used = "Set.filter (\<lambda>statement.
      case m_storeOperations s statement of
        None \<Rightarrow> False
      | Some storeOperation \<Rightarrow>
          effect operation = Read \<and>
          knownUnrelated (knowledge env) storeOperation operation = Some False) ?active"
  let ?covered = "Set.filter (\<lambda>statement.
      case m_storeOperations s statement of
        None \<Rightarrow> False
      | Some storeOperation \<Rightarrow>
          effect operation = Write \<and>
          knownCovered (knowledge env) storeOperation operation) ?active"
  from assms have s': "s' = (if location operation = Storage
      then s\<lparr>m_usedStores := m_usedStores s \<union> ?used,
             activeStorageStores := ?active - (?used \<union> ?covered)\<rparr>
      else s\<lparr>m_usedStores := m_usedStores s \<union> ?used,
             activeMemoryStores := ?active - (?used \<union> ?covered)\<rparr>)"
    unfolding applyOperation_def activeStores_def
    by (simp add: Let_def split: if_splits)
  show "m_usedStores s' = m_usedStores s \<union>
      {x \<in> activeStores (location operation) s. \<exists>storeOperation.
         m_storeOperations s x = Some storeOperation \<and> effect operation = Read \<and>
         knownUnrelated (knowledge env) storeOperation operation = Some False}"
    unfolding s' by (auto split: option.splits)
  show "activeStores (location operation) s' =
      {x \<in> activeStores (location operation) s. \<forall>storeOperation.
         m_storeOperations s x = Some storeOperation \<longrightarrow>
           \<not> (effect operation = Read \<and>
              knownUnrelated (knowledge env) storeOperation operation = Some False) \<and>
           \<not> (effect operation = Write \<and>
              knownCovered (knowledge env) storeOperation operation)}"
    unfolding s' by (auto simp: activeStores_def split: option.splits)
  show "activeStores l s' = activeStores l s" if "l \<noteq> location operation"
    using that unfolding s' by (cases l; cases "location operation") (simp_all add: activeStores_def)
qed

lemma shrinks_activeStores: "shrinks s s' \<Longrightarrow> activeStores l s' \<subseteq> activeStores l s"
  by (simp add: shrinks_def activeStores_def)

lemma applyOperations_removes:
  assumes "applyOperations env operations s = Some s'"
    and "operation \<in> set operations"
    and "m_storeOperations s x = Some storeOperation"
    and "effect operation = Read \<and>
           knownUnrelated (knowledge env) storeOperation operation = Some False \<or>
         effect operation = Write \<and> knownCovered (knowledge env) storeOperation operation"
  shows "x \<notin> activeStores (location operation) s'"
  using assms
proof (induction operations arbitrary: s)
  case Nil
  then show ?case by simp
next
  case (Cons b operations)
  from Cons.prems(1) obtain sa where b: "applyOperation env b s = Some sa"
    and r: "applyOperations env operations sa = Some s'"
    by (auto split: Option.bind_splits)
  note sub = shrinks_activeStores [OF shrinks_applyOperations [OF r], of "location operation"]
  from shrinks_applyOperation [OF b] have so: "m_storeOperations sa = m_storeOperations s"
    by (simp add: shrinks_def)
  show ?case
  proof (cases "operation = b")
    case True
    with applyOperation_effect(2) [OF b] Cons.prems(3,4)
    have "x \<notin> activeStores (location operation) sa" by auto
    with sub show ?thesis by auto
  next
    case False
    with Cons.prems(2) have "operation \<in> set operations" by simp
    from Cons.IH [OF r this _ Cons.prems(4)] so Cons.prems(3) show ?thesis by simp
  qed
qed

lemma applyOperations_marks:
  assumes "applyOperations env (before @ operation # after) s = Some s'"
    and "x \<in> activeStores (location operation) s"
    and "m_storeOperations s x = Some storeOperation"
    and "effect operation = Read"
    and "knownUnrelated (knowledge env) storeOperation operation = Some False"
    and "\<forall>w \<in> set before. \<not> (location w = location operation \<and> effect w = Write \<and>
           knownCovered (knowledge env) storeOperation w)"
  shows "x \<in> m_usedStores s'"
  using assms
proof (induction before arbitrary: s)
  case Nil
  from Nil.prems(1) obtain sa where b: "applyOperation env operation s = Some sa"
    and r: "applyOperations env after sa = Some s'"
    by (auto split: Option.bind_splits)
  from applyOperation_effect(1) [OF b] Nil.prems(2-5) have "x \<in> m_usedStores sa" by auto
  with shrinks_applyOperations [OF r] show ?case by (auto simp: shrinks_def)
next
  case (Cons b before)
  from Cons.prems(1) obtain sa where b: "applyOperation env b s = Some sa"
    and r: "applyOperations env (before @ operation # after) sa = Some s'"
    by (auto split: Option.bind_splits)
  from shrinks_applyOperation [OF b] have so: "m_storeOperations sa = m_storeOperations s"
    by (simp add: shrinks_def)
  show ?case
  proof (cases "x \<in> activeStores (location operation) sa")
    case True
    from Cons.IH [OF r True _ Cons.prems(4,5)] so Cons.prems(3,6) show ?thesis by simp
  next
    case False
    have l: "location b = location operation"
    proof (rule ccontr)
      assume "location b \<noteq> location operation"
      then have "location operation \<noteq> location b" by simp
      from applyOperation_effect(3) [OF b this] False Cons.prems(2) show False by simp
    qed
    from applyOperation_effect(2) [OF b] False Cons.prems(2,3) l
    have "effect b = Read \<and> knownUnrelated (knowledge env) storeOperation b = Some False \<or>
          effect b = Write \<and> knownCovered (knowledge env) storeOperation b"
      by auto
    with Cons.prems(6) l
    have "effect b = Read \<and> knownUnrelated (knowledge env) storeOperation b = Some False"
      by auto
    with applyOperation_effect(1) [OF b] Cons.prems(2,3) l have "x \<in> m_usedStores sa" by auto
    with shrinks_applyOperations [OF r] show ?thesis by (auto simp: shrinks_def)
  qed
qed

lemma applyOperations_used_only:
  assumes "applyOperations env operations s = Some s'" "x \<in> m_usedStores s'"
  shows "x \<in> m_usedStores s \<or>
    (\<exists>operation \<in> set operations. \<exists>storeOperation.
       x \<in> activeStores (location operation) s \<and>
       m_storeOperations s x = Some storeOperation \<and> effect operation = Read \<and>
       knownUnrelated (knowledge env) storeOperation operation = Some False)"
  using assms
proof (induction operations arbitrary: s)
  case Nil
  then show ?case by simp
next
  case (Cons b operations)
  from Cons.prems(1) obtain sa where b: "applyOperation env b s = Some sa"
    and r: "applyOperations env operations sa = Some s'"
    by (auto split: Option.bind_splits)
  from shrinks_applyOperation [OF b] have so: "m_storeOperations sa = m_storeOperations s"
    by (simp add: shrinks_def)
  note sub = shrinks_activeStores [OF shrinks_applyOperation [OF b]]
  from Cons.IH [OF r Cons.prems(2)] show ?case
  proof
    assume "x \<in> m_usedStores sa"
    with applyOperation_effect(1) [OF b] show ?thesis by auto
  next
    assume "\<exists>operation \<in> set operations. \<exists>storeOperation.
       x \<in> activeStores (location operation) sa \<and>
       m_storeOperations sa x = Some storeOperation \<and> effect operation = Read \<and>
       knownUnrelated (knowledge env) storeOperation operation = Some False"
    with so sub show ?thesis by (simp, blast)
  qed
qed

lemma applyOperations_removed_only:
  assumes "applyOperations env operations s = Some s'" "x \<in> activeStores l s"
  shows "x \<in> activeStores l s' \<or>
    (\<exists>operation \<in> set operations. \<exists>storeOperation.
       location operation = l \<and> m_storeOperations s x = Some storeOperation \<and>
       (effect operation = Read \<and>
          knownUnrelated (knowledge env) storeOperation operation = Some False \<or>
        effect operation = Write \<and>
          knownCovered (knowledge env) storeOperation operation))"
  using assms
proof (induction operations arbitrary: s)
  case Nil
  then show ?case by simp
next
  case (Cons b operations)
  from Cons.prems(1) obtain sa where b: "applyOperation env b s = Some sa"
    and r: "applyOperations env operations sa = Some s'"
    by (auto split: Option.bind_splits)
  from shrinks_applyOperation [OF b] have so: "m_storeOperations sa = m_storeOperations s"
    by (simp add: shrinks_def)
  show ?case
  proof (cases "x \<in> activeStores l sa")
    case True
    from Cons.IH [OF r True] so show ?thesis by (simp, blast)
  next
    case False
    have l: "location b = l"
    proof (rule ccontr)
      assume "location b \<noteq> l"
      then have "l \<noteq> location b" by simp
      from applyOperation_effect(3) [OF b this] False Cons.prems(2) show False by simp
    qed
    from applyOperation_effect(2) [OF b] False Cons.prems(2) l
    have "\<exists>storeOperation. m_storeOperations s x = Some storeOperation \<and>
       (effect b = Read \<and> knownUnrelated (knowledge env) storeOperation b = Some False \<or>
        effect b = Write \<and> knownCovered (knowledge env) storeOperation b)"
      by auto
    with l show ?thesis by auto
  qed
qed

subsection \<open>The iteration of a loop ends\<close>

text \<open>
  An iteration of a loop that is not the last takes a store from the entry sets. So
  when these are finite and \<open>forIterate\<close> may run more iterations than they have
  members, it may as well run any larger number: its result, a state or the abort of
  the pass, is that of the unbounded iteration. This is so of the number that the visit
  of a loop passes to it. The sets of a run are finite.
\<close>

lemma forIterate_fuel:
  assumes "finite (activeMemoryStores entry)" "finite (activeStorageStores entry)"
    and "card (activeMemoryStores entry) + card (activeStorageStores entry) < n" "n \<le> m"
  shows "forIterate env p n loop entry s = forIterate env p m loop entry s"
  using assms
proof (induction n arbitrary: m entry s)
  case 0
  then show ?case by simp
next
  case (Suc n)
  from Suc.prems(4) obtain m' where m: "m = Suc m'" "n \<le> m'" by (cases m) auto
  obtain pre condition post body where loop: "loop = Loop pre condition post body"
    by (cases loop)
  have step: "forIterate env p n loop nx nx = forIterate env p m' loop nx nx"
    if nx: "nx = meetActive entry (markIntroducedAsUsed entry s3)"
      and ne: "\<not> (activeMemoryStores nx = activeMemoryStores entry \<and>
        activeStorageStores nx = activeStorageStores entry)" for nx s3
  proof -
    have sub: "activeMemoryStores nx \<subseteq> activeMemoryStores entry"
      "activeStorageStores nx \<subseteq> activeStorageStores entry"
      by (simp_all add: nx meetActive_def markIntroducedAsUsed_def)
    then have fin: "finite (activeMemoryStores nx)" "finite (activeStorageStores nx)"
      using Suc.prems(1,2) by (auto intro: finite_subset)
    from sub ne have "activeMemoryStores nx \<subset> activeMemoryStores entry \<or>
      activeStorageStores nx \<subset> activeStorageStores entry" by blast
    then have "card (activeMemoryStores nx) + card (activeStorageStores nx) <
      card (activeMemoryStores entry) + card (activeStorageStores entry)"
      using sub Suc.prems(1,2)
      by (metis add_le_less_mono add_less_le_mono card_mono psubset_card_mono)
    with Suc.prems(3) have "card (activeMemoryStores nx) + card (activeStorageStores nx) < n"
      by simp
    from Suc.IH [OF fin this m(2)] show ?thesis .
  qed
  show ?case
    unfolding loop m using step [unfolded loop]
    by (auto simp: Let_def split: Option.bind_split)
qed

lemma loop_fuel:
  assumes "walkVector env (p @ [0]) 0 pre s = Some s0"
    and "finite (activeMemoryStores s0)" "finite (activeStorageStores s0)"
  shows "visit env p (ForLoop (Loop pre condition post body)) s =
    forIterate env p (Suc (card (activeMemoryStores s0) + card (activeStorageStores s0)) + k)
      (Loop pre condition post body) s0 s0"
proof -
  have "visit env p (ForLoop (Loop pre condition post body)) s =
    forIterate env p (Suc (card (activeMemoryStores s0) + card (activeStorageStores s0)))
      (Loop pre condition post body) s0 s0"
    using assms(1) by simp
  also have "\<dots> =
    forIterate env p (Suc (card (activeMemoryStores s0) + card (activeStorageStores s0)) + k)
      (Loop pre condition post body) s0 s0"
    by (rule forIterate_fuel [OF assms(2,3)]) simp_all
  finally show ?thesis .
qed

lemma shrinks_allStores: "shrinks s s' \<Longrightarrow> m_allStores s' = m_allStores s"
  by (simp add: shrinks_def)

lemma finite_allStores:
  "visit env p st s = Some s' \<Longrightarrow> finite (m_allStores s) \<Longrightarrow> finite (m_allStores s')"
  "walkVector env p i sts s = Some s' \<Longrightarrow> finite (m_allStores s) \<Longrightarrow> finite (m_allStores s')"
  "walkCases env p j cases pre acc s = Some s' \<Longrightarrow> finite (m_allStores s) \<Longrightarrow>
     finite (m_allStores s')"
  "forIterate env p n loop entry s = Some s' \<Longrightarrow> finite (m_allStores s) \<Longrightarrow>
     finite (m_allStores s')"
proof (induction env p st s and env p i sts s and env p j cases pre acc s
    and env p n loop entry s
    arbitrary: s' and s' and s' and s' rule: visit_walkVector_walkCases_forIterate.induct)
  case (1 env p expression s)
  from "1.prems"(1) obtain s1 where s1: "visit_Expression env expression s = Some s1"
    and v: "visitStore env p expression s1 = Some s'"
    by (auto split: Option.bind_splits)
  from visitStore_cases [OF v] shrinks_allStores [OF shrinks_visit_Expression(1) [OF s1]]
    "1.prems"(2)
  show ?case by (auto dest: insertStore_allStores)
next
  case (2 env p names v s)
  then show ?case by (auto dest!: shrinks_visit_Expression(1) shrinks_allStores)
next
  case (3 env p names v s)
  then show ?case
    by (auto dest!: shrinks_visit_Expression(1) shrinks_allStores split: option.splits)
next
  case (4 env p name parameters returns body s)
  then show ?case by (auto simp: restoreActive_def split: Option.bind_splits)
next
  case (5 env p condition body s)
  from "5.prems"(1) obtain s1 s2 where s1: "visit_Expression env condition s = Some s1"
    and s2: "walkVector env p 0 body s1 = Some s2" and s': "s' = meetActive s1 s2"
    by (auto split: Option.bind_splits)
  from "5.IH" [OF s1 s2] shrinks_allStores [OF shrinks_visit_Expression(1) [OF s1]] "5.prems"(2)
  show ?case by (simp add: s' meetActive_def)
next
  case (6 env p expression cases s)
  from "6.prems"(1) obtain s1 where s1: "visit_Expression env expression s = Some s1"
    and w: "walkCases env p 0 cases s1
            (if list_ex (\<lambda>c. case c of Case v body \<Rightarrow> v = None) cases then None else Some s1)
            s1 = Some s'"
    by (auto split: Option.bind_splits)
  from "6.IH" [OF s1 w] shrinks_allStores [OF shrinks_visit_Expression(1) [OF s1]] "6.prems"(2)
  show ?case by simp
next
  case (7 env p pre condition post body s)
  then show ?case by (auto split: Option.bind_splits)
next
  case (8 env p s)
  then show ?case by simp
next
  case (9 env p s)
  then show ?case by simp
next
  case (10 env p s)
  then show ?case using shrinks_allStores [OF shrinks_markActiveAsUsed [of s None]] by auto
next
  case (11 env p statements s)
  then show ?case by simp
next
  case (12 env p i s)
  then show ?case by simp
next
  case (13 env p i statement statements s)
  then show ?case by (auto split: Option.bind_splits)
next
  case (14 env p j pre acc s)
  then show ?case by (auto simp: restoreActive_def split: option.splits)
next
  case (15 env p j v body cases pre acc s)
  from "15.prems"(1) obtain s1
    where s1: "walkVector env (p @ [j]) 0 body (restoreActive pre s) = Some s1"
    and w: "walkCases env p (Suc j) cases pre
            (Some (case acc of None \<Rightarrow> s1 | Some joined \<Rightarrow> meetActive joined s1)) s1 = Some s'"
    by (auto split: Option.bind_splits)
  from "15.IH"(2) [OF s1 w] "15.IH"(1) [OF s1] "15.prems"(2) show ?case
    by (simp add: restoreActive_def)
next
  case (16 env p loop entry s)
  then show ?case by simp
next
  case (17 env p n pre condition post body entry s)
  let ?loop = "Loop pre condition post body"
  from "17.prems"(1) obtain s1 s2 s3
    where s1: "walkVector env (p @ [1]) 0 body (restoreActive entry s) = Some s1"
    and s2: "walkVector env (p @ [2]) 0 post s1 = Some s2"
    and s3: "visit_Expression env condition s2 = Some s3"
    by (auto split: Option.bind_splits)
  define next' where "next' = meetActive entry (markIntroducedAsUsed entry s3)"
  from "17.IH"(2) [OF s1 s2] "17.IH"(1) [OF s1] "17.prems"(2)
  have "finite (m_allStores s2)" by (simp add: restoreActive_def)
  with shrinks_allStores [OF shrinks_visit_Expression(1) [OF s3]]
  have f: "finite (m_allStores next')"
    by (simp add: next'_def meetActive_def markIntroducedAsUsed_def)
  show ?case
  proof (cases "activeMemoryStores next' = activeMemoryStores entry \<and>
      activeStorageStores next' = activeStorageStores entry")
    case True
    with "17.prems"(1) s1 s2 s3 have "s' = next'" by (simp add: next'_def Let_def)
    with f show ?thesis by simp
  next
    case False
    with "17.prems"(1) s1 s2 s3 have w: "forIterate env p n ?loop next' next' = Some s'"
      by (auto simp: next'_def Let_def split: if_splits)
    from "17.IH"(3) [OF s1 s2 s3 next'_def False w f] show ?thesis .
  qed
qed

lemma finite_active:
  "invariant s \<Longrightarrow> finite (m_allStores s) \<Longrightarrow>
     finite (activeMemoryStores s) \<and> finite (activeStorageStores s)"
  by (auto simp: invariant_def intro: finite_subset)

lemma finite_run:
  assumes "walkVector env [] 0 ast emptyState = Some s"
  shows "finite (m_allStores s)"
  using finite_allStores(2) [OF assms] by (simp add: emptyState_def)

subsection \<open>The scenarios of the specification on loops\<close>

text \<open>
  The store of \<^verbatim>\<open>for {} a {} { mstore(a, b) let x := mload(a) }\<close> is read in the same
  iteration, and that of \<^verbatim>\<open>for {} a {} { let x := mload(a) mstore(a, b) }\<close> in the next
  one: neither is removed. In \<open>loopProgram\<close> the loop reads the store before it.
\<close>

lemma loop_store_read_in_iteration:
  "run (exampleContext loopValues)
     [VariableDeclaration [''a''] (Some (Literal 0)),
      VariableDeclaration [''b''] (Some (Literal 1)),
      ForLoop (Loop [] (Identifier ''a'') []
        [call ''mstore'' [Identifier ''a'', Identifier ''b''],
         VariableDeclaration [''x''] (Some (FunctionCall ''mload'' [Identifier ''a'']))])] =
   Some {}"
  by code_simp

lemma loop_store_read_in_next_iteration:
  "run (exampleContext loopValues)
     [VariableDeclaration [''a''] (Some (Literal 0)),
      VariableDeclaration [''b''] (Some (Literal 1)),
      ForLoop (Loop [] (Identifier ''a'') []
        [VariableDeclaration [''x''] (Some (FunctionCall ''mload'' [Identifier ''a''])),
         call ''mstore'' [Identifier ''a'', Identifier ''b'']])] =
   Some {}"
  by code_simp

lemma loop_reads_store_before_it:
  "run (exampleContext loopValues) loopProgram = Some {}"
  by code_simp

text \<open>
  The first iteration of the loop of \<open>loopProgram\<close> takes the store before the loop
  from the entry set, so the body is analysed a second time: one iteration is not
  enough, two are.
\<close>

lemma loopProgram_second_iteration:
  "forIterate loopEnv [3] 1
     (Loop [] (Identifier ''a'') []
        [call ''sstore'' [Identifier ''a'', Identifier ''b''],
         VariableDeclaration [''x''] (Some (FunctionCall ''mload'' [Identifier ''a'']))])
     (the (walkVector loopEnv [] 0 (take 3 loopProgram) emptyState))
     (the (walkVector loopEnv [] 0 (take 3 loopProgram) emptyState)) = None \<and>
   forIterate loopEnv [3] 2
     (Loop [] (Identifier ''a'') []
        [call ''sstore'' [Identifier ''a'', Identifier ''b''],
         VariableDeclaration [''x''] (Some (FunctionCall ''mload'' [Identifier ''a'']))])
     (the (walkVector loopEnv [] 0 (take 3 loopProgram) emptyState))
     (the (walkVector loopEnv [] 0 (take 3 loopProgram) emptyState)) \<noteq> None"
  by code_simp

section \<open>The claims about the pass\<close>

text \<open>
  Claim C1, as the code has it. On the program
  \<^verbatim>\<open>let a := 0 let b := 1 let c := 2 let d := 32 mstore(a, b) mstore(a, c) return(a, d)\<close>,
  whose arguments are SSA variables, the pass removes the first \<^verbatim>\<open>mstore\<close> (at
  position 4) and nothing else: the second \<^verbatim>\<open>mstore\<close> is kept.
\<close>

theorem C1_dead_store_in_ssa_form:
  "run (exampleContext simpleDeadStoreValues) simpleDeadStoreSSA = Some {[4]}"
  by code_simp

text \<open>
  Claim C1 as stated fails: on \<^verbatim>\<open>mstore(0, 1) mstore(0, 2) return(0, 32)\<close> the pass
  removes nothing. The arguments are literals and not SSA identifiers, so no start is
  recorded: the second store is not known to cover the first, and the read of
  \<^verbatim>\<open>return\<close> marks both as used.
\<close>

theorem C1_counterexample:
  "run (exampleContext Map.empty) simpleDeadStore = Some {}"
  by code_simp

text \<open>
  Claim C2. The visit of a call walks the arguments, which leaves a state \<open>s0\<close>; the
  operations of the callee are applied to the active sets of \<open>s0\<close>, which leaves a
  state \<open>s1\<close>; the control-flow side effects of the callee are applied to \<open>s1\<close>.

  The operations, from \<open>s0\<close> to \<open>s1\<close>: an active store that an operation of its
  location reads (it is not known to be unrelated to the read) or covers is not
  active in \<open>s1\<close>; it is a used store of \<open>s1\<close> when the operation is a read and no
  operation before it in the list covers the store. Nothing else happens: a store
  that is used in \<open>s1\<close> and not in \<open>s0\<close> is such a store that an operation reads, and
  an active store of \<open>s0\<close> that is not active in \<open>s1\<close> is one that an operation reads
  or covers.

  The control-flow side effects, from \<open>s1\<close> to the result: the active storage stores
  of \<open>s1\<close> are added to the used stores exactly when the callee can terminate; the
  active memory set is emptied when the callee cannot continue; the active storage set
  is emptied when the callee can terminate or cannot continue. So a callee that can
  neither continue nor terminate empties both active sets and marks none of their
  members as used.
\<close>

theorem C2_function_call_order:
  assumes "visit_Expression env (FunctionCall functionName arguments) s = Some s'"
  shows "\<exists>s0 operations s1 sideEffects'.
    walkArguments env arguments s = Some s0 \<and>
    operationsFromFunctionCall env functionName arguments = Some operations \<and>
    applyOperations env operations s0 = Some s1 \<and>
    (case builtin (m_dialect env) functionName of
       Some f \<Rightarrow> Some (controlFlowSideEffects f)
     | None \<Rightarrow> m_controlFlowSideEffects env functionName) = Some sideEffects' \<and>
    (\<forall>operation \<in> set operations. \<forall>x storeOperation.
       x \<in> activeStores (location operation) s0 \<and>
       m_storeOperations s0 x = Some storeOperation \<and>
       (effect operation = Read \<and>
          knownUnrelated (knowledge env) storeOperation operation = Some False \<or>
        effect operation = Write \<and>
          knownCovered (knowledge env) storeOperation operation) \<longrightarrow>
       x \<notin> activeStores (location operation) s1) \<and>
    (\<forall>before operation after x storeOperation.
       operations = before @ operation # after \<and>
       x \<in> activeStores (location operation) s0 \<and>
       m_storeOperations s0 x = Some storeOperation \<and>
       effect operation = Read \<and>
       knownUnrelated (knowledge env) storeOperation operation = Some False \<and>
       (\<forall>w \<in> set before. \<not> (location w = location operation \<and> effect w = Write \<and>
          knownCovered (knowledge env) storeOperation w)) \<longrightarrow>
       x \<in> m_usedStores s1) \<and>
    (\<forall>x. x \<in> m_usedStores s1 \<longrightarrow>
       x \<in> m_usedStores s0 \<or>
       (\<exists>operation \<in> set operations. \<exists>storeOperation.
          x \<in> activeStores (location operation) s0 \<and>
          m_storeOperations s0 x = Some storeOperation \<and> effect operation = Read \<and>
          knownUnrelated (knowledge env) storeOperation operation = Some False)) \<and>
    (\<forall>l x. x \<in> activeStores l s0 \<longrightarrow>
       x \<in> activeStores l s1 \<or>
       (\<exists>operation \<in> set operations. \<exists>storeOperation.
          location operation = l \<and> m_storeOperations s0 x = Some storeOperation \<and>
          (effect operation = Read \<and>
             knownUnrelated (knowledge env) storeOperation operation = Some False \<or>
           effect operation = Write \<and>
             knownCovered (knowledge env) storeOperation operation))) \<and>
    m_usedStores s0 \<subseteq> m_usedStores s1 \<and>
    activeMemoryStores s1 \<subseteq> activeMemoryStores s0 \<and>
    activeStorageStores s1 \<subseteq> activeStorageStores s0 \<and>
    m_allStores s1 = m_allStores s0 \<and>
    m_storeOperations s1 = m_storeOperations s0 \<and>
    m_usedStores s' = m_usedStores s1 \<union>
      (if canTerminate sideEffects' then activeStorageStores s1 else {}) \<and>
    activeMemoryStores s' = (if canContinue sideEffects' then activeMemoryStores s1 else {}) \<and>
    activeStorageStores s' =
      (if canTerminate sideEffects' \<or> \<not> canContinue sideEffects' then {}
       else activeStorageStores s1) \<and>
    m_allStores s' = m_allStores s1 \<and>
    m_storeOperations s' = m_storeOperations s1"
proof -
  from assms obtain s0 where s0: "walkArguments env arguments s = Some s0"
    and a: "applyFunctionCall env functionName arguments s0 = Some s'"
    by (auto split: Option.bind_splits)
  from a obtain operations s1 sideEffects'
    where o: "operationsFromFunctionCall env functionName arguments = Some operations"
    and s1: "applyOperations env operations s0 = Some s1"
    and c: "(case builtin (m_dialect env) functionName of
               Some f \<Rightarrow> Some (controlFlowSideEffects f)
             | None \<Rightarrow> m_controlFlowSideEffects env functionName) = Some sideEffects'"
    and s': "s' = s1\<lparr>m_usedStores := m_usedStores s1 \<union>
                 (if canTerminate sideEffects' then activeStorageStores s1 else {}),
              activeMemoryStores :=
                 (if canContinue sideEffects' then activeMemoryStores s1 else {}),
              activeStorageStores :=
                 (if canTerminate sideEffects' \<or> \<not> canContinue sideEffects' then {}
                  else activeStorageStores s1)\<rparr>"
    unfolding applyFunctionCall_eq by (auto simp: bind_eq_Some_conv split del: if_split)
  note sh = shrinks_applyOperations [OF s1]
  have removes: "\<forall>operation \<in> set operations. \<forall>x storeOperation.
       x \<in> activeStores (location operation) s0 \<and>
       m_storeOperations s0 x = Some storeOperation \<and>
       (effect operation = Read \<and>
          knownUnrelated (knowledge env) storeOperation operation = Some False \<or>
        effect operation = Write \<and>
          knownCovered (knowledge env) storeOperation operation) \<longrightarrow>
       x \<notin> activeStores (location operation) s1"
    using applyOperations_removes [OF s1] by blast
  have marks: "\<forall>before operation after x storeOperation.
       operations = before @ operation # after \<and>
       x \<in> activeStores (location operation) s0 \<and>
       m_storeOperations s0 x = Some storeOperation \<and>
       effect operation = Read \<and>
       knownUnrelated (knowledge env) storeOperation operation = Some False \<and>
       (\<forall>w \<in> set before. \<not> (location w = location operation \<and> effect w = Write \<and>
          knownCovered (knowledge env) storeOperation w)) \<longrightarrow>
       x \<in> m_usedStores s1"
  proof (intro allI impI, elim conjE)
    fix before operation after x storeOperation
    assume "operations = before @ operation # after"
      and x: "x \<in> activeStores (location operation) s0"
        "m_storeOperations s0 x = Some storeOperation"
        "effect operation = Read"
        "knownUnrelated (knowledge env) storeOperation operation = Some False"
        "\<forall>w \<in> set before. \<not> (location w = location operation \<and> effect w = Write \<and>
          knownCovered (knowledge env) storeOperation w)"
    with s1 have "applyOperations env (before @ operation # after) s0 = Some s1" by simp
    from applyOperations_marks [OF this x] show "x \<in> m_usedStores s1" .
  qed
  have used_only: "\<forall>x. x \<in> m_usedStores s1 \<longrightarrow>
       x \<in> m_usedStores s0 \<or>
       (\<exists>operation \<in> set operations. \<exists>storeOperation.
          x \<in> activeStores (location operation) s0 \<and>
          m_storeOperations s0 x = Some storeOperation \<and> effect operation = Read \<and>
          knownUnrelated (knowledge env) storeOperation operation = Some False)"
    using applyOperations_used_only [OF s1] by blast
  have removed_only: "\<forall>l x. x \<in> activeStores l s0 \<longrightarrow>
       x \<in> activeStores l s1 \<or>
       (\<exists>operation \<in> set operations. \<exists>storeOperation.
          location operation = l \<and> m_storeOperations s0 x = Some storeOperation \<and>
          (effect operation = Read \<and>
             knownUnrelated (knowledge env) storeOperation operation = Some False \<or>
           effect operation = Write \<and>
             knownCovered (knowledge env) storeOperation operation))"
    using applyOperations_removed_only [OF s1] by blast
  have frame: "m_usedStores s0 \<subseteq> m_usedStores s1"
    "activeMemoryStores s1 \<subseteq> activeMemoryStores s0"
    "activeStorageStores s1 \<subseteq> activeStorageStores s0"
    "m_allStores s1 = m_allStores s0" "m_storeOperations s1 = m_storeOperations s0"
    using sh by (simp_all add: shrinks_def)
  have flow: "m_usedStores s' = m_usedStores s1 \<union>
      (if canTerminate sideEffects' then activeStorageStores s1 else {})"
    "activeMemoryStores s' = (if canContinue sideEffects' then activeMemoryStores s1 else {})"
    "activeStorageStores s' =
      (if canTerminate sideEffects' \<or> \<not> canContinue sideEffects' then {}
       else activeStorageStores s1)"
    "m_allStores s' = m_allStores s1" "m_storeOperations s' = m_storeOperations s1"
    unfolding s' by simp_all
  from s0 o s1 c removes marks used_only removed_only frame flow show ?thesis
    by (intro exI [of _ s0] exI [of _ operations] exI [of _ s1] exI [of _ sideEffects'] conjI)
qed

theorem C2_witness:
  "visit_Expression ssaEnv (FunctionCall ''return'' [Identifier ''a'', Identifier ''d''])
     storesActiveState \<noteq> None \<and>
   m_usedStores (the (visit_Expression ssaEnv
     (FunctionCall ''return'' [Identifier ''a'', Identifier ''d'']) storesActiveState)) =
     {[0], [1]} \<and>
   activeMemoryStores (the (visit_Expression ssaEnv
     (FunctionCall ''return'' [Identifier ''a'', Identifier ''d'']) storesActiveState)) = {} \<and>
   activeStorageStores (the (visit_Expression ssaEnv
     (FunctionCall ''return'' [Identifier ''a'', Identifier ''d'']) storesActiveState)) = {} \<and>
   (\<exists>operations s1.
      operationsFromFunctionCall ssaEnv ''return'' [Identifier ''a'', Identifier ''d''] =
        Some operations \<and>
      applyOperations ssaEnv operations storesActiveState = Some s1 \<and>
      m_usedStores s1 = {[0]} \<and> activeMemoryStores s1 = {} \<and>
      activeStorageStores s1 = {[1]})"
proof -
  let ?call = "FunctionCall ''return'' [Identifier ''a'', Identifier ''d'']"
  let ?v = "visit_Expression ssaEnv ?call storesActiveState"
  have some: "?v \<noteq> None" by code_simp
  then have visit: "?v = Some (the ?v)" by simp
  have u: "m_usedStores (the ?v) = {[0], [1]}" by code_simp
  have m: "activeMemoryStores (the ?v) = {}" by code_simp
  have st: "activeStorageStores (the ?v) = {}" by code_simp
  have w: "walkArguments ssaEnv [Identifier ''a'', Identifier ''d''] storesActiveState =
    Some storesActiveState" by simp
  have o: "operationsFromFunctionCall ssaEnv ''return'' [Identifier ''a'', Identifier ''d''] =
    Some [\<lparr>location = Memory, effect = Read, start = Some ''a'', length_op = Some ''d''\<rparr>]"
    by code_simp
  have a: "[0] \<in> activeStores Memory storesActiveState"
    "m_storeOperations storesActiveState [0] = Some mstoreOperation"
    by (simp_all add: activeStores_def storesActiveState_def)
  have k: "knownUnrelated (knowledge ssaEnv) mstoreOperation
      \<lparr>location = Memory, effect = Read, start = Some ''a'', length_op = Some ''d''\<rparr> =
    Some False"
    by code_simp
  have c: "(case builtin (m_dialect ssaEnv) ''return'' of
       Some f \<Rightarrow> Some (controlFlowSideEffects f)
     | None \<Rightarrow> m_controlFlowSideEffects ssaEnv ''return'') =
    Some \<lparr>canTerminate = True, canContinue = False\<rparr>"
    by code_simp
  from C2_function_call_order [OF visit] w o c obtain s1
    where s1: "applyOperations ssaEnv
        [\<lparr>location = Memory, effect = Read, start = Some ''a'', length_op = Some ''d''\<rparr>]
        storesActiveState = Some s1"
      and removes: "\<forall>operation \<in> set
          [\<lparr>location = Memory, effect = Read, start = Some ''a'', length_op = Some ''d''\<rparr>].
        \<forall>x storeOperation.
          x \<in> activeStores (location operation) storesActiveState \<and>
          m_storeOperations storesActiveState x = Some storeOperation \<and>
          (effect operation = Read \<and>
             knownUnrelated (knowledge ssaEnv) storeOperation operation = Some False \<or>
           effect operation = Write \<and>
             knownCovered (knowledge ssaEnv) storeOperation operation) \<longrightarrow>
          x \<notin> activeStores (location operation) s1"
      and sub: "activeMemoryStores s1 \<subseteq> activeMemoryStores storesActiveState"
      and used: "m_usedStores (the ?v) = m_usedStores s1 \<union>
        (if canTerminate \<lparr>canTerminate = True, canContinue = False\<rparr>
         then activeStorageStores s1 else {})"
      and storage: "\<forall>l x. x \<in> activeStores l storesActiveState \<longrightarrow>
        x \<in> activeStores l s1 \<or>
        (\<exists>operation \<in> set
            [\<lparr>location = Memory, effect = Read, start = Some ''a'', length_op = Some ''d''\<rparr>].
          \<exists>storeOperation. location operation = l \<and>
            m_storeOperations storesActiveState x = Some storeOperation \<and>
            (effect operation = Read \<and>
               knownUnrelated (knowledge ssaEnv) storeOperation operation = Some False \<or>
             effect operation = Write \<and>
               knownCovered (knowledge ssaEnv) storeOperation operation))"
      and sub': "activeStorageStores s1 \<subseteq> activeStorageStores storesActiveState"
      and only: "\<forall>x. x \<in> m_usedStores s1 \<longrightarrow>
        x \<in> m_usedStores storesActiveState \<or>
        (\<exists>operation \<in> set
            [\<lparr>location = Memory, effect = Read, start = Some ''a'', length_op = Some ''d''\<rparr>].
          \<exists>storeOperation.
            x \<in> activeStores (location operation) storesActiveState \<and>
            m_storeOperations storesActiveState x = Some storeOperation \<and>
            effect operation = Read \<and>
            knownUnrelated (knowledge ssaEnv) storeOperation operation = Some False)"
    by auto
  from removes a k have "[0] \<notin> activeMemoryStores s1" by (auto simp: activeStores_def)
  with sub have m1: "activeMemoryStores s1 = {}" by (auto simp: storesActiveState_def)
  from storage [rule_format, of "[1]" Storage] have "[1] \<in> activeStorageStores s1"
    by (simp add: activeStores_def storesActiveState_def)
  with sub' have st1: "activeStorageStores s1 = {[1]}" by (auto simp: storesActiveState_def)
  from only have "m_usedStores s1 \<subseteq> {[0]}"
    by (auto simp: activeStores_def storesActiveState_def)
  with used u st1 have u1: "m_usedStores s1 = {[0]}" by auto
  from some u m st o s1 u1 m1 st1 show ?thesis by blast
qed

text \<open>
  Claim C3. The finalization keeps \<open>m_allStores\<close>, empties both active sets, marks the
  active storage stores as used, and marks the active memory stores as used unless the
  dialect is an EVM dialect that provides object access; and \<open>run\<close> hands to the
  remover the set of all stores minus the used stores of the finalized state.
\<close>

theorem C3_finalization:
  "m_allStores (finalize d s) = m_allStores s \<and>
   m_usedStores (finalize d s) =
     m_usedStores s \<union> activeStorageStores s \<union>
     (if isEVMDialect d \<and> providesObjectAccess d then {} else activeMemoryStores s) \<and>
   activeMemoryStores (finalize d s) = {} \<and>
   activeStorageStores (finalize d s) = {} \<and>
   run context ast =
     (case walkVector (newUnusedStoreEliminator context ast) [] 0 ast emptyState of
        None \<Rightarrow> None
      | Some s' \<Rightarrow>
          Some (m_allStores (finalize (dialect context) s') -
                m_usedStores (finalize (dialect context) s')))"
proof -
  have "m_allStores (finalize d s) = m_allStores s"
    "m_usedStores (finalize d s) =
       m_usedStores s \<union> activeStorageStores s \<union>
       (if isEVMDialect d \<and> providesObjectAccess d then {} else activeMemoryStores s)"
    "activeMemoryStores (finalize d s) = {}"
    "activeStorageStores (finalize d s) = {}"
    by (auto simp: finalize_def markActiveAsUsed_def clearActive_def Let_def)
  then show ?thesis
    by (simp add: run_def Let_def split: option.splits)
qed

text \<open>
  Claim C4. Let \<open>s\<close> be the state after the walk of the program, and let the statement
  at the position \<open>x\<close> be a call of \<^verbatim>\<open>returndatacopy\<close>. Unless its second argument is an
  SSA variable known to be zero and its third argument is an SSA variable whose value
  is a call of \<^verbatim>\<open>returndatasize\<close>, the statement is not among the stores, is in no
  active set, and is not handed to the remover. (\<open>m_allStores\<close> only grows, so the
  statement was at no time a store, in whichever iteration of a loop it was visited.)
\<close>

theorem C4_returndatacopy_shape:
  assumes walk: "walkVector (newUnusedStoreEliminator context ast) [] 0 ast emptyState = Some s"
    and at: "stmt_at ast x = Some (ExpressionStatement (FunctionCall f args))"
    and copy: "toEVMInstruction (dialect context) f = Some RETURNDATACOPY"
    and shape: "\<not> (\<exists>startOffset length' lengthName lengthArguments.
       vector_at args 1 = Some (Identifier startOffset) \<and>
       vector_at args 2 = Some (Identifier length') \<and>
       m_ssaValues (newUnusedStoreEliminator context ast) startOffset \<noteq> None \<and>
       knownToBeZero (knowledge (newUnusedStoreEliminator context ast)) startOffset \<and>
       m_ssaValues (newUnusedStoreEliminator context ast) length' =
         Some (FunctionCall lengthName lengthArguments) \<and>
       toEVMInstruction (dialect context) lengthName = Some RETURNDATASIZE)"
  shows "x \<notin> m_allStores s \<and> x \<notin> activeMemoryStores s \<and> x \<notin> activeStorageStores s \<and>
    (\<exists>R. run context ast = Some R \<and> x \<notin> R)"
proof -
  let ?env = "newUnusedStoreEliminator context ast"
  have d: "m_dialect ?env = dialect context" by (simp add: newUnusedStoreEliminator_def)
  have n: "x \<notin> m_allStores s"
  proof
    assume "x \<in> m_allStores s"
    from root_stores [OF walk this] have "isStoreAt ?env (stmt_at ast x)" .
    then have "allowReturndatacopyToBeRemoved ?env args = Some True"
      using at copy d by (auto elim!: isStoreAt_cases)
    from allowReturndatacopyToBeRemoved_shape [OF this] shape d show False by simp
  qed
  moreover from root_invariant [OF walk] n
  have "x \<notin> activeMemoryStores s" "x \<notin> activeStorageStores s"
    by (auto simp: invariant_def)
  moreover from run_removes [OF walk] n have "\<exists>R. run context ast = Some R \<and> x \<notin> R" by blast
  ultimately show ?thesis by simp
qed

theorem C4_witness:
  "stmt_at literalLengthCopy [1, 1, 0] =
     Some (ExpressionStatement (FunctionCall ''returndatacopy''
       [Identifier ''z'', Identifier ''z'', Literal 32])) \<and>
   toEVMInstruction (dialect (exampleContext literalLengthCopyValues)) ''returndatacopy'' =
     Some RETURNDATACOPY \<and>
   [1, 1, 0] \<notin> m_allStores (the (walkVector
     (newUnusedStoreEliminator (exampleContext literalLengthCopyValues) literalLengthCopy)
     [] 0 literalLengthCopy emptyState)) \<and>
   (\<exists>R. run (exampleContext literalLengthCopyValues) literalLengthCopy = Some R \<and> [1, 1, 0] \<notin> R)"
proof -
  let ?c = "exampleContext literalLengthCopyValues"
  let ?w = "walkVector (newUnusedStoreEliminator ?c literalLengthCopy) [] 0
    literalLengthCopy emptyState"
  have "?w \<noteq> None" by code_simp
  then have walk: "?w = Some (the ?w)" by simp
  have at: "stmt_at literalLengthCopy [1, 1, 0] =
     Some (ExpressionStatement (FunctionCall ''returndatacopy''
       [Identifier ''z'', Identifier ''z'', Literal 32]))"
    by code_simp
  have copy: "toEVMInstruction (dialect ?c) ''returndatacopy'' = Some RETURNDATACOPY"
    by code_simp
  have shape: "\<not> (\<exists>startOffset length' lengthName lengthArguments.
       vector_at [Identifier ''z'', Identifier ''z'', Literal 32] 1 = Some (Identifier startOffset) \<and>
       vector_at [Identifier ''z'', Identifier ''z'', Literal 32] 2 = Some (Identifier length') \<and>
       m_ssaValues (newUnusedStoreEliminator ?c literalLengthCopy) startOffset \<noteq> None \<and>
       knownToBeZero (knowledge (newUnusedStoreEliminator ?c literalLengthCopy)) startOffset \<and>
       m_ssaValues (newUnusedStoreEliminator ?c literalLengthCopy) length' =
         Some (FunctionCall lengthName lengthArguments) \<and>
       toEVMInstruction (dialect ?c) lengthName = Some RETURNDATASIZE)"
    by (simp add: vector_at_def)
  from C4_returndatacopy_shape [OF walk at copy shape] at copy show ?thesis by simp
qed

text \<open>
  The shape that the pass accepts is removed, as the specification expects of
  \<^verbatim>\<open>returndatacopy(X, 0, returndatasize())\<close> when nothing reads the memory.
\<close>

lemma returndatacopy_exact_shape_removed:
  "run (exampleContext returndatacopyValues) returndatacopyProgram = Some {[2]}"
  by code_simp

text \<open>
  Claim C7. If the program contains \<^verbatim>\<open>msize\<close>, then every statement among the stores
  after the walk of the program is a call of \<^verbatim>\<open>sstore\<close>, which is none of the opcodes
  that write memory; and what the pass hands to the remover is a set of such stores. So
  no statement that writes memory is classified as a store or removed, inside a loop
  as outside.
\<close>

theorem C7_msize_ignores_memory:
  assumes msize: "containsMSize (dialect context) ast"
    and walk: "walkVector (newUnusedStoreEliminator context ast) [] 0 ast emptyState = Some s"
  shows "(\<forall>x \<in> m_allStores s. \<exists>f args.
            stmt_at ast x = Some (ExpressionStatement (FunctionCall f args)) \<and>
            toEVMInstruction (dialect context) f = Some SSTORE) \<and>
         \<not> isMemoryWrite SSTORE \<and>
         (\<exists>R. run context ast = Some R \<and> R \<subseteq> m_allStores s)"
proof (intro conjI ballI)
  fix x assume x: "x \<in> m_allStores s"
  let ?env = "newUnusedStoreEliminator context ast"
  have d: "m_dialect ?env = dialect context" "m_ignoreMemory ?env"
    using msize by (simp_all add: newUnusedStoreEliminator_def)
  from root_stores [OF walk x] have "isStoreAt ?env (stmt_at ast x)" .
  then show "\<exists>f args. stmt_at ast x = Some (ExpressionStatement (FunctionCall f args)) \<and>
            toEVMInstruction (dialect context) f = Some SSTORE"
    using d by (auto elim!: isStoreAt_cases simp: isStorageWrite_def)
next
  show "\<not> isMemoryWrite SSTORE" by (simp add: isMemoryWrite_def)
next
  show "\<exists>R. run context ast = Some R \<and> R \<subseteq> m_allStores s" by (rule run_removes [OF walk])
qed

theorem C7_witness:
  "containsMSize (dialect (exampleContext msizeValues)) msizeProgram \<and>
   [2, 1, 1] \<in> m_allStores (the (walkVector
     (newUnusedStoreEliminator (exampleContext msizeValues) msizeProgram)
     [] 0 msizeProgram emptyState)) \<and>
   [2, 1, 0] \<notin> m_allStores (the (walkVector
     (newUnusedStoreEliminator (exampleContext msizeValues) msizeProgram)
     [] 0 msizeProgram emptyState)) \<and>
   (\<exists>f args. stmt_at msizeProgram [2, 1, 1] = Some (ExpressionStatement (FunctionCall f args)) \<and>
      toEVMInstruction (dialect (exampleContext msizeValues)) f = Some SSTORE)"
proof -
  let ?c = "exampleContext msizeValues"
  let ?w = "walkVector (newUnusedStoreEliminator ?c msizeProgram) [] 0 msizeProgram emptyState"
  have msize: "containsMSize (dialect ?c) msizeProgram" by code_simp
  have "?w \<noteq> None" by code_simp
  then have walk: "?w = Some (the ?w)" by simp
  have sstore: "[2, 1, 1] \<in> m_allStores (the ?w)" by code_simp
  have mstore: "[2, 1, 0] \<notin> m_allStores (the ?w)" by code_simp
  from C7_msize_ignores_memory [OF msize walk] sstore msize mstore show ?thesis by blast
qed

text \<open>
  Claim C8. The invariant (both active sets and the used set are within the set of all
  stores, and the active sets are disjoint) holds of the initial state, and every step of
  the traversal from a state with the invariant ends in a state with the invariant in
  which \<open>m_allStores\<close> and \<open>m_usedStores\<close> have only gained members: the steps are
  \<open>markActiveAsUsed\<close> and \<open>clearActive\<close>, the application of an operation, the visit
  of an expression, the visit of a statement, and the walk of a suffix of a block. So
  the invariant holds after the walk of the program.

  A statement of a loop is visited in every iteration, in a state in which it may be a
  store already. For the visit of the statement at a position of the program \<open>ast\<close>,
  the invariant is therefore kept together with \<open>agrees\<close>: every active store is in
  the active set of the location of the statement at its position. This holds of the
  initial state, and every step keeps it.
\<close>

theorem C8_invariants:
  "invariant emptyState \<and> agrees env ast emptyState \<and>
   (invariant s \<longrightarrow>
      invariant (markActiveAsUsed onlyLocation s) \<and>
      m_allStores s \<subseteq> m_allStores (markActiveAsUsed onlyLocation s) \<and>
      m_usedStores s \<subseteq> m_usedStores (markActiveAsUsed onlyLocation s) \<and>
      invariant (clearActive onlyLocation s) \<and>
      m_allStores s \<subseteq> m_allStores (clearActive onlyLocation s) \<and>
      m_usedStores s \<subseteq> m_usedStores (clearActive onlyLocation s)) \<and>
   (invariant s \<and> applyOperation env operation s = Some s' \<longrightarrow>
      invariant s' \<and> m_allStores s \<subseteq> m_allStores s' \<and> m_usedStores s \<subseteq> m_usedStores s') \<and>
   (invariant s \<and> visit_Expression env expression s = Some s' \<longrightarrow>
      invariant s' \<and> m_allStores s \<subseteq> m_allStores s' \<and> m_usedStores s \<subseteq> m_usedStores s') \<and>
   (agrees env ast s \<longrightarrow>
      agrees env ast (markActiveAsUsed onlyLocation s) \<and>
      agrees env ast (clearActive onlyLocation s)) \<and>
   (agrees env ast s \<and> applyOperation env operation s = Some s' \<longrightarrow> agrees env ast s') \<and>
   (agrees env ast s \<and> visit_Expression env expression s = Some s' \<longrightarrow> agrees env ast s') \<and>
   (invariant s \<and> agrees env ast s \<and> (\<forall>r. stmt_at ast (p @ r) = sub_at statement r) \<and>
    visit env p statement s = Some s' \<longrightarrow>
      invariant s' \<and> agrees env ast s' \<and>
      m_allStores s \<subseteq> m_allStores s' \<and> m_usedStores s \<subseteq> m_usedStores s') \<and>
   (invariant s \<and> agrees env ast s \<and>
    (\<forall>k r. stmt_at ast (p @ (i + k) # r) = stmt_at statements (k # r)) \<and>
    walkVector env p i statements s = Some s' \<longrightarrow>
      invariant s' \<and> agrees env ast s' \<and>
      m_allStores s \<subseteq> m_allStores s' \<and> m_usedStores s \<subseteq> m_usedStores s') \<and>
   (walkVector env [] 0 ast emptyState = Some s' \<longrightarrow> invariant s' \<and> agrees env ast s')"
proof (intro conjI impI)
  show "invariant emptyState" by (simp add: invariant_def emptyState_def)
  show "agrees env ast emptyState" by (simp add: agrees_def emptyState_def)
next
  assume i: "invariant s"
  note m = shrinks_markActiveAsUsed [of s onlyLocation]
  note c = shrinks_clearActive [of s onlyLocation]
  show "invariant (markActiveAsUsed onlyLocation s)" by (rule shrinks_invariant [OF m i])
  show "invariant (clearActive onlyLocation s)" by (rule shrinks_invariant [OF c i])
  show "m_allStores s \<subseteq> m_allStores (markActiveAsUsed onlyLocation s)"
    "m_usedStores s \<subseteq> m_usedStores (markActiveAsUsed onlyLocation s)"
    using shrinks_grows [OF m] by (simp_all add: grows_def)
  show "m_allStores s \<subseteq> m_allStores (clearActive onlyLocation s)"
    "m_usedStores s \<subseteq> m_usedStores (clearActive onlyLocation s)"
    using shrinks_grows [OF c] by (simp_all add: grows_def)
next
  assume "invariant s \<and> applyOperation env operation s = Some s'"
  then have i: "invariant s" and sh: "shrinks s s'" by (auto dest: shrinks_applyOperation)
  show "invariant s'" by (rule shrinks_invariant [OF sh i])
  show "m_allStores s \<subseteq> m_allStores s'" "m_usedStores s \<subseteq> m_usedStores s'"
    using shrinks_grows [OF sh] by (simp_all add: grows_def)
next
  assume "invariant s \<and> visit_Expression env expression s = Some s'"
  then have "invariant s' \<and> grows s s'" using visit_Expression_invariant by blast
  then show "invariant s'" "m_allStores s \<subseteq> m_allStores s'" "m_usedStores s \<subseteq> m_usedStores s'"
    by (simp_all add: grows_def)
next
  assume a: "agrees env ast s"
  show "agrees env ast (markActiveAsUsed onlyLocation s)"
    by (rule shrinks_agrees [OF shrinks_markActiveAsUsed a])
  show "agrees env ast (clearActive onlyLocation s)"
    by (rule shrinks_agrees [OF shrinks_clearActive a])
next
  assume "agrees env ast s \<and> applyOperation env operation s = Some s'"
  then show "agrees env ast s'" by (auto dest: shrinks_applyOperation intro: shrinks_agrees)
next
  assume "agrees env ast s \<and> visit_Expression env expression s = Some s'"
  then show "agrees env ast s'"
    by (auto dest: shrinks_visit_Expression(1) intro: shrinks_agrees)
next
  assume "invariant s \<and> agrees env ast s \<and> (\<forall>r. stmt_at ast (p @ r) = sub_at statement r) \<and>
    visit env p statement s = Some s'"
  then have "invariant s' \<and> agrees env ast s' \<and> grows s s'"
    using invariant_preserved(1) by blast
  then show "invariant s'" "agrees env ast s'"
    "m_allStores s \<subseteq> m_allStores s'" "m_usedStores s \<subseteq> m_usedStores s'"
    by (simp_all add: grows_def)
next
  assume "invariant s \<and> agrees env ast s \<and>
    (\<forall>k r. stmt_at ast (p @ (i + k) # r) = stmt_at statements (k # r)) \<and>
    walkVector env p i statements s = Some s'"
  then have "invariant s' \<and> agrees env ast s' \<and> grows s s'"
    using invariant_preserved(2) by blast
  then show "invariant s'" "agrees env ast s'"
    "m_allStores s \<subseteq> m_allStores s'" "m_usedStores s \<subseteq> m_usedStores s'"
    by (simp_all add: grows_def)
next
  assume w: "walkVector env [] 0 ast emptyState = Some s'"
  from invariant_preserved(2) [OF w, of ast]
  show "invariant s'" "agrees env ast s'"
    by (simp_all add: invariant_def agrees_def emptyState_def)
qed

theorem C8_witness:
  "invariant emptyState \<and>
   walkVector loopEnv [] 0 loopProgram emptyState \<noteq> None \<and>
   invariant (the (walkVector loopEnv [] 0 loopProgram emptyState)) \<and>
   m_allStores (the (walkVector loopEnv [] 0 loopProgram emptyState)) = {[2], [3, 1, 0]} \<and>
   m_usedStores (the (walkVector loopEnv [] 0 loopProgram emptyState)) = {[2], [3, 1, 0]}"
proof -
  let ?w = "walkVector loopEnv [] 0 loopProgram emptyState"
  have some: "?w \<noteq> None" by code_simp
  then have walk: "?w = Some (the ?w)" by simp
  have i: "invariant emptyState" by (simp add: invariant_def emptyState_def)
  have g: "agrees loopEnv loopProgram emptyState" by (simp add: agrees_def emptyState_def)
  have l: "\<forall>k r. stmt_at loopProgram ([] @ (0 + k) # r) = stmt_at loopProgram (k # r)"
    by simp
  have a: "m_allStores (the ?w) = {[2], [3, 1, 0]}" by code_simp
  have u: "m_usedStores (the ?w) = {[2], [3, 1, 0]}" by code_simp
  from C8_invariants [of loopEnv loopProgram emptyState _ _ "the ?w" _ "[]" _ 0 loopProgram]
    i g l walk some a u
  show ?thesis by blast
qed

text \<open>
  Claim C9. Let \<open>env\<close> be the pass object that \<open>run\<close> constructs. Assume that every
  storage operation with a start parameter in the table of the semantic information has
  the length constant 1, and that the knowledge base knows a variable bound to a literal
  to be that constant (\<open>run\<close> binds the special constant \<open>one\<close> to the literal 1). Then
  of any two operations that \<open>operationsFromFunctionCall\<close> returns, \<open>knownUnrelated\<close>
  does not fail its assertion; and if both are storage operations with a start, both
  have the length \<open>one\<close>, known to be the constant 1. Every operation in
  \<open>m_storeOperations\<close> is such an operation, after the visit of a statement as before
  it, so this holds of each call of \<open>knownUnrelated\<close> by \<open>applyOperation\<close>.
\<close>

theorem C9_storage_lengths_one:
  assumes table: "\<forall>i. \<forall>sop \<in> set (readWriteOperations (ctx_semanticInformation context) i).
      sem_location sop = Storage \<and> startParameter sop \<noteq> None \<longrightarrow> lengthConstant sop = Some 1"
    and literals: "\<forall>values v n. values v = Some (Literal n) \<longrightarrow>
      valueIfKnownConstant (ctx_newKnowledgeBase context (dialect context) values) v = Some n"
    and env: "env = newUnusedStoreEliminator context ast"
  shows "(\<forall>a b. produced env a \<and> produced env b \<longrightarrow>
            knownUnrelated (knowledge env) a b \<noteq> None \<and>
            (location a = Storage \<and> location b = Storage \<and>
             start a \<noteq> None \<and> start b \<noteq> None \<longrightarrow>
               length_op a = Some one \<and> length_op b = Some one \<and>
               valueIfKnownConstant (knowledge env) one = Some 1)) \<and>
         (\<forall>p st s s'. (\<forall>x operation. m_storeOperations s x = Some operation \<longrightarrow>
                          produced env operation) \<and>
            visit env p st s = Some s' \<longrightarrow>
            (\<forall>x operation. m_storeOperations s' x = Some operation \<longrightarrow>
               produced env operation))"
proof (intro conjI allI impI)
  have table': "\<forall>i. \<forall>sop \<in> set (readWriteOperations (semanticInformation env) i).
      sem_location sop = Storage \<and> startParameter sop \<noteq> None \<longrightarrow> lengthConstant sop = Some 1"
    using table by (simp add: env newUnusedStoreEliminator_def)
  have "m_ssaValues env one = Some (Literal 1)"
    by (simp add: env newUnusedStoreEliminator_def one_def thirtyTwo_def)
  with literals have const: "valueIfKnownConstant (knowledge env) one = Some 1"
    by (simp add: knowledge_def env newUnusedStoreEliminator_def)
  fix a b
  assume p: "produced env a \<and> produced env b"
  have len: "length_op a = Some one \<and> length_op b = Some one"
    if "location a = Storage \<and> location b = Storage \<and> start a \<noteq> None \<and> start b \<noteq> None"
    using that p produced_storage_length [OF table'] by blast
  show "knownUnrelated (knowledge env) a b \<noteq> None"
  proof (cases "location a = Storage \<and> location b = Storage \<and>
      start a \<noteq> None \<and> start b \<noteq> None")
    case True
    with len const show ?thesis
      by (auto simp: knownUnrelated_def split: option.splits)
  next
    case False
    then show ?thesis
      by (auto simp: knownUnrelated_def split: option.splits)
  qed
  assume "location a = Storage \<and> location b = Storage \<and> start a \<noteq> None \<and> start b \<noteq> None"
  with len const
  show "length_op a = Some one" "length_op b = Some one"
    "valueIfKnownConstant (knowledge env) one = Some 1"
    by simp_all
next
  fix p st s s' x operation
  assume "(\<forall>x operation. m_storeOperations s x = Some operation \<longrightarrow> produced env operation) \<and>
            visit env p st s = Some s'"
    and "m_storeOperations s' x = Some operation"
  with storeOperations_produced(1) show "produced env operation" by blast
qed

theorem C9_witness:
  "produced ssaEnv sstoreOperation \<and> produced ssaEnv sloadOperation \<and>
   location sstoreOperation = Storage \<and> location sloadOperation = Storage \<and>
   start sstoreOperation \<noteq> None \<and> start sloadOperation \<noteq> None \<and>
   length_op sstoreOperation = Some one \<and> length_op sloadOperation = Some one \<and>
   valueIfKnownConstant (knowledge ssaEnv) one = Some 1 \<and>
   knownUnrelated (knowledge ssaEnv) sstoreOperation sloadOperation \<noteq> None"
proof -
  let ?c = "exampleContext simpleDeadStoreValues"
  have table: "\<forall>i. \<forall>sop \<in> set (readWriteOperations (ctx_semanticInformation ?c) i).
      sem_location sop = Storage \<and> startParameter sop \<noteq> None \<longrightarrow> lengthConstant sop = Some 1"
  proof
    fix i
    show "\<forall>sop \<in> set (readWriteOperations (ctx_semanticInformation ?c) i).
      sem_location sop = Storage \<and> startParameter sop \<noteq> None \<longrightarrow> lengthConstant sop = Some 1"
      by (cases i)
        (simp_all add: exampleContext_def exampleSemanticInformation_def semanticOperation_def)
  qed
  have literals: "\<forall>values v n. values v = Some (Literal n) \<longrightarrow>
      valueIfKnownConstant (ctx_newKnowledgeBase ?c (dialect ?c) values) v = Some n"
    by (simp add: exampleContext_def literalKnowledgeBase_def)
  have "operationsFromFunctionCall ssaEnv ''sstore'' [Identifier ''a'', Identifier ''b''] =
      Some [sstoreOperation]"
    by code_simp
  then have pa: "produced ssaEnv sstoreOperation" unfolding produced_def by fastforce
  have "operationsFromFunctionCall ssaEnv ''sload'' [Identifier ''a''] = Some [sloadOperation]"
    by code_simp
  then have pb: "produced ssaEnv sloadOperation" unfolding produced_def by fastforce
  have st: "location sstoreOperation = Storage" "location sloadOperation = Storage"
    "start sstoreOperation \<noteq> None" "start sloadOperation \<noteq> None"
    by (simp_all add: sstoreOperation_def sloadOperation_def)
  from C9_storage_lengths_one [OF table literals ssaEnv_def] pa pb st show ?thesis by blast
qed

end
